theory Spec2Isabelle
  imports Complex_Main
begin

section \<open>Microinjector firmware v2.0 (microinject.ino)\<close>

text \<open>
  A shallow embedding of \<^verbatim>\<open>src/injector2/microinject/microinject.ino\<close>: the program
  store, the active-move globals, the velocity profile \<^verbatim>\<open>computeSpeed\<close>, the prompts
  of the serial console and the whole of \<^verbatim>\<open>loop()\<close>.

  Conventions of the model.
  \<^item> A C \<^verbatim>\<open>float\<close> is a \<^typ>\<open>real\<close> and its arithmetic is exact: rounding, infinities
    and NaN are not modelled. The properties proved below about speeds rest on
    comparisons, \<open>min\<close>, \<open>max\<close> and the monotonicity of the operations only.
  \<^item> A \<^verbatim>\<open>long\<close> is an \<^typ>\<open>int\<close>; a \<^verbatim>\<open>uint8_t\<close> is a \<^typ>\<open>nat\<close> whose increments and
    decrements are written with \<open>mod 256\<close>.
  \<^item> The serial port is a queue \<open>rx\<close> of received lines (without their line ending)
    and a log \<open>tx\<close> of what the firmware printed. A blocking wait for input on an
    empty queue never returns: the result is \<open>None\<close>.
  \<^item> The AccelStepper library and the Arduino \<^verbatim>\<open>String\<close> number parsers are not part
    of the repository. The stepper is modelled from the manual kept in the repository;
    the parsers are parameters of the model.
\<close>

subsection \<open>Data\<close>

definition MAX_STEPS :: nat where
  "MAX_STEPS = 5"

definition ABS_MAX_SPEED :: real where
  "ABS_MAX_SPEED = 1000"

definition ABS_MAX_ACCEL :: real where
  "ABS_MAX_ACCEL = 1000"

text \<open>\<^verbatim>\<open>struct Step\<close>.\<close>

record Step =
  forward :: bool
  distance :: int
  start_speed :: real
  end_speed :: real
  accel :: real

datatype State = STATE_IDLE | STATE_MOVING_MANUAL | STATE_MOVING_PROG

text \<open>What the firmware prints: a text, an integer, a float, or the end of a line.\<close>

datatype tok = Txt string | Num int | Flo real | Ln

subsection \<open>The AccelStepper object\<close>

text \<open>
  Modelled from the AccelStepper manual of the repository. The object keeps the current
  and the target position, the speed used by \<^verbatim>\<open>runSpeed()\<close>, the maximum speed and
  whether the outputs are enabled. \<open>pulses\<close> counts the calls of the library's internal
  \<^verbatim>\<open>step()\<close>, that is the steps sent to the motor.
\<close>

record AccelStepper =
  currentPosition :: int
  targetPosition :: int
  speed :: real
  maxSpeed :: real
  outputs :: bool
  pulses :: nat

text \<open>
  The constructor: \<^verbatim>\<open>maxSpeed\<close> is 1.0, the positions are 0, the speed is 0.0 and
  \<^verbatim>\<open>enableOutputs()\<close> is called.
\<close>

definition AccelStepper_new :: AccelStepper where
  "AccelStepper_new =
     \<lparr>currentPosition = 0, targetPosition = 0, speed = 0, maxSpeed = 1,
      outputs = True, pulses = 0\<rparr>"

text \<open>\<^verbatim>\<open>setMaxSpeed\<close>: a negative value is stored as its absolute value.\<close>

definition setMaxSpeed :: "real \<Rightarrow> AccelStepper \<Rightarrow> AccelStepper" where
  "setMaxSpeed v m = m\<lparr>maxSpeed := \<bar>v\<bar>\<rparr>"

text \<open>\<^verbatim>\<open>setSpeed\<close>: the speed is limited to plus or minus \<^verbatim>\<open>maxSpeed\<close>.\<close>

definition setSpeed :: "real \<Rightarrow> AccelStepper \<Rightarrow> AccelStepper" where
  "setSpeed v m = m\<lparr>speed := max (- maxSpeed m) (min (maxSpeed m) v)\<rparr>"

text \<open>
  \<^verbatim>\<open>setCurrentPosition\<close>: current and target position become the argument and the
  speed is reset to 0.0.
\<close>

definition setCurrentPosition :: "int \<Rightarrow> AccelStepper \<Rightarrow> AccelStepper" where
  "setCurrentPosition p m = m\<lparr>currentPosition := p, targetPosition := p, speed := 0\<rparr>"

definition enableOutputs :: "AccelStepper \<Rightarrow> AccelStepper" where
  "enableOutputs m = m\<lparr>outputs := True\<rparr>"

definition disableOutputs :: "AccelStepper \<Rightarrow> AccelStepper" where
  "disableOutputs m = m\<lparr>outputs := False\<rparr>"

text \<open>
  \<^verbatim>\<open>runSpeed\<close> takes one step if a step is due: it increments or decrements the
  current position, following the sign of the speed, and calls \<^verbatim>\<open>step()\<close>. Whether
  a step is due is decided by the library from its clock; the model takes the decision as
  the argument \<open>d\<close>. With speed 0.0 there is no step interval and no step.
\<close>

definition runSpeed :: "bool \<Rightarrow> AccelStepper \<Rightarrow> AccelStepper" where
  "runSpeed d m =
     (if d \<and> speed m \<noteq> 0
      then m\<lparr>currentPosition := currentPosition m + (if 0 < speed m then 1 else - 1),
              pulses := pulses m + 1\<rparr>
      else m)"

subsection \<open>The globals of the sketch\<close>

record sys =
  program :: "Step list"
  programCount :: nat
  g_moving :: bool
  g_target_dist :: int
  g_start_speed :: real
  g_end_speed :: real
  g_accel :: real
  g_fwd :: bool
  state :: State
  progStepIndex :: nat
  stepper :: AccelStepper
  rx :: "string list"
  tx :: "tok list"

text \<open>The stored program as the user sees it: the first \<open>programCount\<close> slots.\<close>

definition listing :: "sys \<Rightarrow> Step list" where
  "listing s = take (programCount s) (program s)"

text \<open>A store state: five slots, of which at most five are in use.\<close>

definition store_ok :: "sys \<Rightarrow> bool" where
  "store_ok s \<longleftrightarrow> length (program s) = MAX_STEPS \<and> programCount s \<le> MAX_STEPS"

text \<open>
  The ranges that \<^verbatim>\<open>promptStep\<close> enforces on every step it returns: the firmware
  starts a move from such a step only.
\<close>

definition valid_step :: "Step \<Rightarrow> bool" where
  "valid_step st \<longleftrightarrow>
     1 \<le> distance st \<and> distance st \<le> 999999 \<and>
     1 \<le> start_speed st \<and> start_speed st \<le> ABS_MAX_SPEED \<and>
     1 \<le> end_speed st \<and> end_speed st \<le> ABS_MAX_SPEED \<and>
     - ABS_MAX_ACCEL \<le> accel st \<and> accel st \<le> ABS_MAX_ACCEL"

subsection \<open>Starting a move and the velocity profile\<close>

definition startStep :: "Step \<Rightarrow> sys \<Rightarrow> sys" where
  "startStep st s =
     (let m0 = setCurrentPosition 0 (stepper s);
          s1 = s\<lparr>stepper := m0,
                 g_target_dist := distance st,
                 g_start_speed := max 1 (start_speed st),
                 g_end_speed := max 1 (end_speed st),
                 g_accel := accel st,
                 g_fwd := forward st,
                 g_moving := True\<rparr>;
          max_v = max (g_start_speed s1) (g_end_speed s1);
          m1 = setMaxSpeed max_v (stepper s1);
          m2 = setSpeed (if g_fwd s1 then g_start_speed s1 else - g_start_speed s1) m1
      in s1\<lparr>stepper := m2\<rparr>)"

definition computeSpeed :: "sys \<Rightarrow> int \<Rightarrow> real" where
  "computeSpeed s steps_done =
     (if g_accel s = 0 \<or> g_start_speed s = g_end_speed s then g_start_speed s
      else
        let v2 = g_start_speed s * g_start_speed s + 2 * g_accel s * real_of_int steps_done;
            v2 = (if v2 < 0 then 0 else v2);
            v = sqrt v2;
            v = (if 0 < g_accel s then min v (g_end_speed s) else max v (g_end_speed s))
        in max v 1)"

text \<open>The velocity profile of a move: \<^verbatim>\<open>computeSpeed\<close> after \<^verbatim>\<open>startStep\<close>.\<close>

definition profile :: "Step \<Rightarrow> sys \<Rightarrow> int \<Rightarrow> real" where
  "profile st s steps_done = computeSpeed (startStep st s) steps_done"


subsection \<open>The serial console\<close>

text \<open>
  The number parsers of the Arduino \<^verbatim>\<open>String\<close> class (\<^verbatim>\<open>toInt\<close>, \<^verbatim>\<open>toFloat\<close>) are
  library code: the model takes them as parameters. A text that the library parses to
  an infinity or to NaN fails every range test of the sketch, as a finite value beyond
  all ranges does.
\<close>

record lib =
  toInt :: "string \<Rightarrow> int"
  toFloat :: "string \<Rightarrow> real"

definition isspace :: "char \<Rightarrow> bool" where
  "isspace c \<longleftrightarrow> c \<in> set [CHR '' '', CHR 0x09, CHR 0x0A, CHR 0x0B, CHR 0x0C, CHR 0x0D]"

definition trim :: "string \<Rightarrow> string" where
  "trim s = rev (dropWhile isspace (rev (dropWhile isspace s)))"

definition toupper :: "char \<Rightarrow> char" where
  "toupper c =
     (case map_of (zip ''abcdefghijklmnopqrstuvwxyz'' ''ABCDEFGHIJKLMNOPQRSTUVWXYZ'') c of
        None \<Rightarrow> c
      | Some u \<Rightarrow> u)"

definition toUpperCase :: "string \<Rightarrow> string" where
  "toUpperCase s = map toupper s"

text \<open>The conversion of a \<^verbatim>\<open>long\<close> to the 16-bit \<^verbatim>\<open>int\<close> of the AVR.\<close>

definition to_int16 :: "int \<Rightarrow> int" where
  "to_int16 x = (x + 32768) mod 65536 - 32768"

text \<open>The cast \<^verbatim>\<open>(int)\<close> of a float: truncation towards zero.\<close>

definition trunc :: "real \<Rightarrow> int" where
  "trunc x = (if 0 \<le> x then \<lfloor>x\<rfloor> else \<lceil>x\<rceil>)"

definition print :: "string \<Rightarrow> tok list" where
  "print t = [Txt t]"

definition println :: "string \<Rightarrow> tok list" where
  "println t = [Txt t, Ln]"

definition emit :: "tok list \<Rightarrow> sys \<Rightarrow> sys" where
  "emit ts s = s\<lparr>tx := tx s @ ts\<rparr>"

definition printDivider :: "tok list" where
  "printDivider = println ''----------------------------''"

text \<open>The text of the main menu, for \<open>n\<close> stored steps.\<close>

definition main_menu :: "nat \<Rightarrow> tok list" where
  "main_menu n =
     printDivider @
     println ''  MICROINJECTOR  v2.0'' @
     printDivider @
     println ''  [M] Manual move'' @
     println ''  [P] Edit program'' @
     println ''  [R] Run program'' @
     println ''  [S] Show program'' @
     println ''  [C] Clear program'' @
     println ''  [?] Help'' @
     printDivider @
     print ''  Steps stored: '' @ [Num (int n), Ln] @
     printDivider @
     println ''Enter command > ''"

definition printMainMenu :: "sys \<Rightarrow> sys" where
  "printMainMenu s = emit (main_menu (programCount s)) s"

definition printHelp :: "tok list" where
  "printHelp =
     println ''Units & limits:'' @
     println ''  Distance  : steps  (2048 = 1 rev)'' @
     println ''  Start spd : steps/s  (1 - 1000)  speed at t=0'' @
     println ''  End spd   : steps/s  (1 - 1000)  target final speed'' @
     println ''  Accel     : steps/s2 (-1000 to +1000, 0 = constant)'' @
     println ''  Direction : F = forward, B = backward'' @
     println ''During a move: type X + Enter to abort.''"

definition printProgram_row :: "sys \<Rightarrow> nat \<Rightarrow> tok list" where
  "printProgram_row s i =
     [Num (int i + 1), Txt ''  '',
      Txt (if forward (program s ! i) then ''F'' else ''B''), Txt ''    '',
      Num (distance (program s ! i)), Txt ''         '',
      Num (trunc (start_speed (program s ! i))), Txt ''        '',
      Num (trunc (end_speed (program s ! i))), Txt ''     '',
      Num (trunc (accel (program s ! i))), Ln]"

definition printProgram :: "sys \<Rightarrow> sys" where
  "printProgram s =
     (if programCount s = 0 then emit (println ''Program is empty.'') s
      else emit (println ''#  Dir  Dist(steps)  StartSpd  EndSpd  Accel'' @
                 printDivider @
                 concat (map (printProgram_row s) [0..<programCount s])) s)"

text \<open>
  \<^verbatim>\<open>promptLine\<close> prints the message, waits for a line and trims it. The arguments are
  the receive queue and the transmit log; the result carries what is left of the queue.
\<close>

definition promptLine ::
  "string \<Rightarrow> string list \<Rightarrow> tok list \<Rightarrow> (string \<times> string list \<times> tok list) option" where
  "promptLine msg q out =
     (case q of [] \<Rightarrow> None | l # r \<Rightarrow> Some (trim l, r, out @ print msg))"

lemma promptLine_shorter:
  "promptLine msg q out = Some (str, q', out') \<Longrightarrow> length q' < length q"
  by (auto simp: promptLine_def split: list.splits)

function promptFloat ::
  "lib \<Rightarrow> string \<Rightarrow> real \<Rightarrow> real \<Rightarrow> string list \<Rightarrow> tok list \<Rightarrow>
   (real \<times> string list \<times> tok list) option" where
  "promptFloat L msg lo hi q out =
     (case promptLine msg q out of
        None \<Rightarrow> None
      | Some (str, q', out') \<Rightarrow>
          (let v = toFloat L str in
           if lo \<le> v \<and> v \<le> hi then Some (v, q', out')
           else promptFloat L msg lo hi q'
                  (out' @ print ''  ! Out of range ('' @ [Flo lo] @ print '' - '' @
                   [Flo hi] @ println ''), try again.'')))"
  by pat_completeness auto
termination
  by (relation "measure (\<lambda>(L, msg, lo, hi, q, out). length q)")
    (auto dest: promptLine_shorter)

declare promptFloat.simps [simp del]

function promptLong ::
  "lib \<Rightarrow> string \<Rightarrow> int \<Rightarrow> int \<Rightarrow> string list \<Rightarrow> tok list \<Rightarrow>
   (int \<times> string list \<times> tok list) option" where
  "promptLong L msg lo hi q out =
     (case promptLine msg q out of
        None \<Rightarrow> None
      | Some (str, q', out') \<Rightarrow>
          (let v = toInt L str in
           if lo \<le> v \<and> v \<le> hi then Some (v, q', out')
           else promptLong L msg lo hi q'
                  (out' @ print ''  ! Out of range ('' @ [Num lo] @ print '' - '' @
                   [Num hi] @ println ''), try again.'')))"
  by pat_completeness auto
termination
  by (relation "measure (\<lambda>(L, msg, lo, hi, q, out). length q)")
    (auto dest: promptLine_shorter)

declare promptLong.simps [simp del]

function promptDirection ::
  "string list \<Rightarrow> tok list \<Rightarrow> (bool \<times> string list \<times> tok list) option" where
  "promptDirection q out =
     (case promptLine ''  Direction (F=forward, B=backward) > '' q out of
        None \<Rightarrow> None
      | Some (str, q', out') \<Rightarrow>
          (let u = toUpperCase str in
           if u = ''F'' then Some (True, q', out')
           else if u = ''B'' then Some (False, q', out')
           else promptDirection q' (out' @ println ''  ! Enter F or B.'')))"
  by pat_completeness auto
termination
  by (relation "measure (\<lambda>(q, out). length q)") (auto dest: promptLine_shorter)

declare promptDirection.simps [simp del]

definition promptStep ::
  "lib \<Rightarrow> string list \<Rightarrow> tok list \<Rightarrow> (Step \<times> string list \<times> tok list) option" where
  "promptStep L q out =
     (case promptDirection q out of
        None \<Rightarrow> None
      | Some (f, q1, out1) \<Rightarrow>
     (case promptLong L ''  Distance  (steps, 1-999999) > '' 1 999999 q1 out1 of
        None \<Rightarrow> None
      | Some (d, q2, out2) \<Rightarrow>
     (case promptFloat L ''  Start spd (steps/s, 1-1000) > '' 1 ABS_MAX_SPEED q2 out2 of
        None \<Rightarrow> None
      | Some (v0, q3, out3) \<Rightarrow>
     (case promptFloat L ''  End spd   (steps/s, 1-1000) > '' 1 ABS_MAX_SPEED q3 out3 of
        None \<Rightarrow> None
      | Some (v1, q4, out4) \<Rightarrow>
     (case promptFloat L ''  Accel     (steps/s2, -1000 to 1000) > ''
             (- ABS_MAX_ACCEL) ABS_MAX_ACCEL q4 out4 of
        None \<Rightarrow> None
      | Some (a, q5, out5) \<Rightarrow>
          Some (\<lparr>forward = f, distance = d, start_speed = v0, end_speed = v1, accel = a\<rparr>,
                q5, out5))))))"


lemma promptFloat_shorter:
  "promptFloat L msg lo hi q out = Some (v, q', out') \<Longrightarrow> length q' < length q"
proof (induction L msg lo hi q out rule: promptFloat.induct)
  case (1 L msg lo hi q out)
  from "1.prems" obtain str q1 out1 where
    pl: "promptLine msg q out = Some (str, q1, out1)"
    by (subst (asm) promptFloat.simps) (auto split: option.splits)
  have lt: "length q1 < length q" using pl by (rule promptLine_shorter)
  show ?case
  proof (cases "lo \<le> toFloat L str \<and> toFloat L str \<le> hi")
    case True
    with "1.prems" pl have "q' = q1"
      by (subst (asm) promptFloat.simps) (simp add: Let_def)
    with lt show ?thesis by simp
  next
    case False
    with "1.prems" pl have
      "promptFloat L msg lo hi q1
         (out1 @ print ''  ! Out of range ('' @ [Flo lo] @ print '' - '' @
          [Flo hi] @ println ''), try again.'') = Some (v, q', out')"
      by (subst (asm) promptFloat.simps) (simp add: Let_def)
    with "1.IH"[OF pl refl refl refl False] have "length q' < length q1" by simp
    with lt show ?thesis by simp
  qed
qed

lemma promptLong_shorter:
  "promptLong L msg lo hi q out = Some (v, q', out') \<Longrightarrow> length q' < length q"
proof (induction L msg lo hi q out rule: promptLong.induct)
  case (1 L msg lo hi q out)
  from "1.prems" obtain str q1 out1 where
    pl: "promptLine msg q out = Some (str, q1, out1)"
    by (subst (asm) promptLong.simps) (auto split: option.splits)
  have lt: "length q1 < length q" using pl by (rule promptLine_shorter)
  show ?case
  proof (cases "lo \<le> toInt L str \<and> toInt L str \<le> hi")
    case True
    with "1.prems" pl have "q' = q1"
      by (subst (asm) promptLong.simps) (simp add: Let_def)
    with lt show ?thesis by simp
  next
    case False
    with "1.prems" pl have
      "promptLong L msg lo hi q1
         (out1 @ print ''  ! Out of range ('' @ [Num lo] @ print '' - '' @
          [Num hi] @ println ''), try again.'') = Some (v, q', out')"
      by (subst (asm) promptLong.simps) (simp add: Let_def)
    with "1.IH"[OF pl refl refl refl False] have "length q' < length q1" by simp
    with lt show ?thesis by simp
  qed
qed

lemma promptDirection_shorter:
  "promptDirection q out = Some (f, q', out') \<Longrightarrow> length q' < length q"
proof (induction q out rule: promptDirection.induct)
  case (1 q out)
  from "1.prems" obtain str q1 out1 where
    pl: "promptLine ''  Direction (F=forward, B=backward) > '' q out = Some (str, q1, out1)"
    by (subst (asm) promptDirection.simps) (auto split: option.splits)
  have lt: "length q1 < length q" using pl by (rule promptLine_shorter)
  show ?case
  proof (cases "toUpperCase str = ''F'' \<or> toUpperCase str = ''B''")
    case True
    with "1.prems" pl have "q' = q1"
      by (subst (asm) promptDirection.simps) (auto simp: Let_def split: if_splits)
    with lt show ?thesis by simp
  next
    case False
    with "1.prems" pl have
      "promptDirection q1 (out1 @ println ''  ! Enter F or B.'') = Some (f, q', out')"
      by (subst (asm) promptDirection.simps) (simp add: Let_def)
    with "1.IH"[OF pl refl refl] False have "length q' < length q1" by simp
    with lt show ?thesis by simp
  qed
qed

lemma promptStep_shorter:
  assumes "promptStep L q out = Some (st, q', out')"
  shows "length q' < length q"
proof -
  from assms obtain f q1 out1 d q2 out2 v0 q3 out3 v1 q4 out4 a where
    "promptDirection q out = Some (f, q1, out1)"
    "promptLong L ''  Distance  (steps, 1-999999) > '' 1 999999 q1 out1 = Some (d, q2, out2)"
    "promptFloat L ''  Start spd (steps/s, 1-1000) > '' 1 ABS_MAX_SPEED q2 out2
       = Some (v0, q3, out3)"
    "promptFloat L ''  End spd   (steps/s, 1-1000) > '' 1 ABS_MAX_SPEED q3 out3
       = Some (v1, q4, out4)"
    "promptFloat L ''  Accel     (steps/s2, -1000 to 1000) > ''
       (- ABS_MAX_ACCEL) ABS_MAX_ACCEL q4 out4 = Some (a, q', out')"
    by (auto simp: promptStep_def split: option.splits)
  then have "length q1 < length q" "length q2 < length q1" "length q3 < length q2"
    "length q4 < length q3" "length q' < length q4"
    by (auto dest: promptDirection_shorter promptLong_shorter promptFloat_shorter)
  then show ?thesis by simp
qed


subsection \<open>The program editor\<close>

text \<open>
  The branch \<^verbatim>\<open>ec == 'A'\<close> of the editor: a full store prints the refusal and is left
  as it is; otherwise the step returned by \<^verbatim>\<open>promptStep\<close> is written to the slot
  \<open>programCount\<close> and the count is incremented.
\<close>

definition editor_add :: "lib \<Rightarrow> sys \<Rightarrow> sys option" where
  "editor_add L s =
     (if programCount s \<ge> MAX_STEPS then Some (emit (println ''! Program full (max 5 steps).'') s)
      else
        let s1 = emit (print (CHR 0x0A # ''--- New Step '') @ [Num (int (programCount s) + 1)] @
                       println '' ---'') s
        in case promptStep L (rx s1) (tx s1) of
             None \<Rightarrow> None
           | Some (st, q, out) \<Rightarrow>
               Some (emit (println ''Step added.'')
                      (s1\<lparr>rx := q, tx := out,
                          program := (program s1)[programCount s1 := st],
                          programCount := (programCount s1 + 1) mod 256\<rparr>)))"

text \<open>
  The loop \<^verbatim>\<open>for (uint8_t i = idx; i < programCount - 1; i++) program[i] = program[i + 1]\<close>.
  The test is made on \<^verbatim>\<open>int\<close> values. The counter stays below \<open>programCount - 1\<close>, which
  is at most 254, so its increment never wraps.
\<close>

function delete_shift :: "nat \<Rightarrow> sys \<Rightarrow> sys" where
  "delete_shift i s =
     (if int i < int (programCount s) - 1
      then delete_shift (i + 1) (s\<lparr>program := (program s)[i := program s ! (i + 1)]\<rparr>)
      else s)"
  by pat_completeness auto
termination
  by (relation "measure (\<lambda>(i, s). programCount s - i)") auto

declare delete_shift.simps [simp del]

text \<open>
  The branch \<^verbatim>\<open>ec == 'D'\<close> of the editor, from the index \<^verbatim>\<open>idx\<close> on: an index outside
  \<open>[0, programCount)\<close> prints the refusal; otherwise the later steps move down by one
  slot and the count is decremented.
\<close>

definition editor_delete :: "int \<Rightarrow> sys \<Rightarrow> sys" where
  "editor_delete idx s =
     (if idx < 0 \<or> idx \<ge> int (programCount s) then emit (println ''! Invalid step number.'') s
      else
        let s1 = delete_shift (nat idx) s
        in emit (println ''Step deleted.'') (s1\<lparr>programCount := (programCount s1 + 255) mod 256\<rparr>))"

lemma rx_emit [simp]: "rx (emit ts s) = rx s"
  by (simp add: emit_def)

lemma rx_printProgram [simp]: "rx (printProgram s) = rx s"
  by (simp add: printProgram_def)

lemma rx_delete_shift [simp]: "rx (delete_shift i s) = rx s"
  by (induction i s rule: delete_shift.induct) (subst delete_shift.simps, simp)

lemma rx_editor_delete [simp]: "rx (editor_delete idx s) = rx s"
  by (simp add: editor_delete_def Let_def)

lemma editor_add_rx:
  "editor_add L s = Some s' \<Longrightarrow> length (rx s') \<le> length (rx s)"
  by (auto simp: editor_add_def Let_def split: if_splits option.splits
      dest!: promptStep_shorter)

text \<open>
  The \<^verbatim>\<open>while (editing)\<close> loop of the command \<^verbatim>\<open>P\<close>. It returns when the user
  enters \<^verbatim>\<open>Q\<close>.
\<close>

function editor :: "lib \<Rightarrow> sys \<Rightarrow> sys option" where
  "editor L s =
     (let s1 = emit (println (CHR 0x0A # ''[A] Add step  [D n] Delete step  [Q] Back'') @
                     print ''> '') (printProgram s)
      in case rx s1 of
           [] \<Rightarrow> None
         | l # r \<Rightarrow>
             (let s2 = s1\<lparr>rx := r\<rparr>; str = trim l in
              if length str = 0 then editor L s2
              else
                let ec = toupper (str ! 0) in
                if ec = CHR ''Q'' then Some s2
                else if ec = CHR ''A'' then
                  (case editor_add L s2 of None \<Rightarrow> None | Some s3 \<Rightarrow> editor L s3)
                else if ec = CHR ''D'' then
                  (if length str < 3 then editor L (emit (println ''! Usage: D <n>'') s2)
                   else editor L (editor_delete (to_int16 (toInt L (drop 2 str) - 1)) s2))
                else editor L (emit (println ''! Use A, D <n>, or Q.'') s2)))"
  by pat_completeness auto
termination
proof (relation "measure (\<lambda>(L, s). length (rx s))", goal_cases)
  case 1
  show ?case by simp
next
  case (2 L s s1 l r s2 str)
  then show ?case by simp
next
  case (3 L s s1 l r s2 str ec s3)
  then have "length (rx s3) \<le> length r"
    using editor_add_rx[of L s2 s3] by simp
  with 3 show ?case by simp
next
  case (4 L s s1 l r s2 str ec)
  then show ?case by simp
next
  case (5 L s s1 l r s2 str ec)
  then show ?case by simp
next
  case (6 L s s1 l r s2 str ec)
  then show ?case by simp
qed

declare editor.simps [simp del]

subsection \<open>\<^verbatim>\<open>setup()\<close> and \<^verbatim>\<open>loop()\<close>\<close>

text \<open>The globals as their initialisers leave them.\<close>

definition globals0 :: sys where
  "globals0 =
     \<lparr>program = replicate MAX_STEPS
        \<lparr>forward = False, distance = 0, start_speed = 0, end_speed = 0, accel = 0\<rparr>,
      programCount = 0, g_moving = False, g_target_dist = 0, g_start_speed = 1,
      g_end_speed = 1, g_accel = 0, g_fwd = True, state = STATE_IDLE, progStepIndex = 0,
      stepper = AccelStepper_new, rx = [], tx = []\<rparr>"

definition setup_sketch :: sys where
  "setup_sketch =
     printMainMenu
       (globals0\<lparr>stepper := disableOutputs (setMaxSpeed ABS_MAX_SPEED (stepper globals0))\<rparr>)"

text \<open>
  What one call of \<^verbatim>\<open>loop()\<close> takes from outside: whether the library finds a step
  due in \<^verbatim>\<open>runSpeed()\<close>, and the lines that the serial port has received since the
  last call (for a call that waits in a prompt: up to the end of the call).
\<close>

record env =
  due :: bool
  arrived :: "string list"

text \<open>The first block of \<^verbatim>\<open>loop()\<close>: service the stepper motion.\<close>

definition service :: "bool \<Rightarrow> sys \<Rightarrow> sys" where
  "service d s =
     (if g_moving s then
        let steps_done = \<bar>currentPosition (stepper s)\<bar>;
            v = computeSpeed s steps_done;
            m1 = setMaxSpeed v (stepper s);
            m2 = setSpeed (if g_fwd s then v else - v) m1
        in s\<lparr>stepper := runSpeed d m2\<rparr>
      else s)"

text \<open>\<^verbatim>\<open>bool done = (abs(stepper.currentPosition()) >= g_target_dist)\<close>.\<close>

definition move_done :: "sys \<Rightarrow> bool" where
  "move_done s \<longleftrightarrow> \<bar>currentPosition (stepper s)\<bar> \<ge> g_target_dist s"

text \<open>The block \<^verbatim>\<open>if (done) { ... return; }\<close>.\<close>

definition finish_move :: "sys \<Rightarrow> sys" where
  "finish_move s =
     (let s1 = s\<lparr>g_moving := False, stepper := disableOutputs (stepper s)\<rparr> in
      if state s1 = STATE_MOVING_MANUAL then
        printMainMenu ((emit (println (CHR 0x0A # ''[DONE] Move complete.'')) s1)
                         \<lparr>state := STATE_IDLE\<rparr>)
      else
        let s2 = s1\<lparr>progStepIndex := (progStepIndex s1 + 1) mod 256\<rparr> in
        if progStepIndex s2 < programCount s2 then
          let s3 = emit (print (CHR 0x0A # ''[STEP '') @ [Num (int (progStepIndex s2) + 1)] @
                         print ''/'' @ [Num (int (programCount s2))] @
                         println ''] Starting...'') s2;
              s4 = s3\<lparr>stepper := enableOutputs (stepper s3)\<rparr>
          in startStep (program s4 ! progStepIndex s4) s4
        else
          printMainMenu ((emit (println (CHR 0x0A # ''[DONE] Program complete.'')) s2)
                           \<lparr>state := STATE_IDLE\<rparr>))"

text \<open>The block \<^verbatim>\<open>// Abort?\<close>: a pending line is read; only \<^verbatim>\<open>X\<close> has an effect.\<close>

definition abort_check :: "sys \<Rightarrow> sys" where
  "abort_check s =
     (case rx s of
        [] \<Rightarrow> s
      | l # r \<Rightarrow>
          (let s1 = s\<lparr>rx := r\<rparr>; str = toUpperCase (trim l) in
           if str = ''X'' then
             let s2 = s1\<lparr>stepper := setSpeed 0 (stepper s1)\<rparr>;
                 s3 = s2\<lparr>g_moving := False\<rparr>;
                 s4 = s3\<lparr>stepper := disableOutputs (stepper s3)\<rparr>;
                 s5 = emit (println (CHR 0x0A # ''[ABORTED] Motor stopped.'')) s4
             in printMainMenu (s5\<lparr>state := STATE_IDLE\<rparr>)
           else s1))"

text \<open>The cases of the \<^verbatim>\<open>switch (ch)\<close> of \<^verbatim>\<open>STATE_IDLE\<close>, one definition each.\<close>

definition case_M :: "lib \<Rightarrow> sys \<Rightarrow> sys option" where
  "case_M L s =
     (let s2 = emit (println (CHR 0x0A # ''--- Manual Move ---'')) s in
      case promptStep L (rx s2) (tx s2) of
        None \<Rightarrow> None
      | Some (st, q, out) \<Rightarrow>
          (let s3 = emit (println ''Starting move... (type X + Enter to abort)'')
                      (s2\<lparr>rx := q, tx := out\<rparr>);
               s4 = s3\<lparr>stepper := enableOutputs (stepper s3)\<rparr>
           in Some ((startStep st s4)\<lparr>state := STATE_MOVING_MANUAL\<rparr>)))"

definition case_P :: "lib \<Rightarrow> sys \<Rightarrow> sys option" where
  "case_P L s =
     (case editor L (emit (println (CHR 0x0A # ''--- Program Editor ---'')) s) of
        None \<Rightarrow> None
      | Some s2 \<Rightarrow> Some (printMainMenu s2))"

definition case_R :: "sys \<Rightarrow> sys" where
  "case_R s =
     (if programCount s = 0 then printMainMenu (emit (println ''! Program empty.'') s)
      else
        let s2 = s\<lparr>progStepIndex := 0\<rparr>;
            s3 = emit (print (CHR 0x0A # ''--- Running Program ('') @
                       [Num (int (programCount s2))] @
                       println '' step(s)) --- type X + Enter to abort ---'' @
                       print ''[STEP 1/'' @ [Num (int (programCount s2))] @
                       println ''] Starting...'') s2;
            s4 = s3\<lparr>stepper := enableOutputs (stepper s3)\<rparr>
        in (startStep (program s4 ! 0) s4)\<lparr>state := STATE_MOVING_PROG\<rparr>)"

definition case_S :: "sys \<Rightarrow> sys" where
  "case_S s =
     printMainMenu (printProgram (emit (println (CHR 0x0A # ''--- Current Program ---'')) s))"

definition case_C :: "sys \<Rightarrow> sys" where
  "case_C s = printMainMenu (emit (println ''Program cleared.'') (s\<lparr>programCount := 0\<rparr>))"

definition case_help :: "sys \<Rightarrow> sys" where
  "case_help s = printMainMenu (emit ([Ln] @ printHelp) s)"

definition case_default :: "string \<Rightarrow> sys \<Rightarrow> sys" where
  "case_default cmd s = printMainMenu (emit (print ''! Unknown command: '' @ println cmd) s)"

text \<open>The rest of \<^verbatim>\<open>loop()\<close>: the commands of \<^verbatim>\<open>STATE_IDLE\<close>.\<close>

definition idle_command :: "lib \<Rightarrow> sys \<Rightarrow> sys option" where
  "idle_command L s =
     (case rx s of
        [] \<Rightarrow> Some s
      | l # r \<Rightarrow>
          (let s1 = s\<lparr>rx := r\<rparr>; cmd = toUpperCase (trim l) in
           if length cmd = 0 then Some (printMainMenu s1)
           else
             let ch = cmd ! 0 in
             if ch = CHR ''M'' then case_M L s1
             else if ch = CHR ''P'' then case_P L s1
             else if ch = CHR ''R'' then Some (case_R s1)
             else if ch = CHR ''S'' then Some (case_S s1)
             else if ch = CHR ''C'' then Some (case_C s1)
             else if ch = CHR ''?'' then Some (case_help s1)
             else Some (case_default cmd s1)))"

text \<open>
  The state of a call after its first block: the lines that arrived are in the receive
  queue and the motion has been serviced.
\<close>

definition after_service :: "env \<Rightarrow> sys \<Rightarrow> sys" where
  "after_service e s = service (due e) (s\<lparr>rx := rx s @ arrived e\<rparr>)"

definition loop :: "lib \<Rightarrow> env \<Rightarrow> sys \<Rightarrow> sys option" where
  "loop L e s0 =
     (let s = after_service e s0 in
      if state s = STATE_MOVING_MANUAL \<or> state s = STATE_MOVING_PROG then
        (if move_done s then Some (finish_move s) else Some (abort_check s))
      else idle_command L s)"

text \<open>Successive calls of \<^verbatim>\<open>loop()\<close>, one per element of the list.\<close>

fun run :: "lib \<Rightarrow> env list \<Rightarrow> sys \<Rightarrow> sys option" where
  "run L [] s = Some s"
| "run L (e # es) s = (case loop L e s of None \<Rightarrow> None | Some s' \<Rightarrow> run L es s')"

text \<open>The states that the firmware can be in between two calls of \<^verbatim>\<open>loop()\<close>.\<close>

inductive reachable :: "lib \<Rightarrow> sys \<Rightarrow> bool" for L :: lib where
  reachable_setup: "reachable L setup_sketch"
| reachable_loop: "reachable L s \<Longrightarrow> loop L e s = Some s' \<Longrightarrow> reachable L s'"


text \<open>
  \<open>stays P L es s\<close>: every call of the run \<open>es\<close> from \<open>s\<close> returns and starts in a
  session state that satisfies \<open>P\<close>.
\<close>

fun stays :: "(State \<Rightarrow> bool) \<Rightarrow> lib \<Rightarrow> env list \<Rightarrow> sys \<Rightarrow> bool" where
  "stays P L [] s = True"
| "stays P L (e # es) s =
     (P (state s) \<and> (case loop L e s of None \<Rightarrow> False | Some s' \<Rightarrow> stays P L es s'))"

text \<open>The number of calls of a run on which an active move is found complete.\<close>

fun done_ticks :: "lib \<Rightarrow> env list \<Rightarrow> sys \<Rightarrow> nat" where
  "done_ticks L [] s = 0"
| "done_ticks L (e # es) s =
     (if state s \<noteq> STATE_IDLE \<and> move_done (after_service e s) then 1 else 0) +
     (case loop L e s of None \<Rightarrow> 0 | Some s' \<Rightarrow> done_ticks L es s')"

subsection \<open>Concrete inputs for the examples\<close>

text \<open>
  A parser for the examples: it reads an optional minus sign and the decimal digits that
  follow, as the library does on such texts.
\<close>

fun digits_value :: "nat \<Rightarrow> string \<Rightarrow> nat" where
  "digits_value a [] = a"
| "digits_value a (c # cs) =
     (case map_of (zip ''0123456789'' [0, 1, 2, 3, 4, 5, 6, 7, 8, 9]) c of
        None \<Rightarrow> a
      | Some d \<Rightarrow> digits_value (10 * a + d) cs)"

definition decimal :: "string \<Rightarrow> int" where
  "decimal str =
     (case str of
        [] \<Rightarrow> 0
      | c # cs \<Rightarrow> if c = CHR ''-'' then - int (digits_value 0 cs) else int (digits_value 0 str))"

definition decimal_lib :: lib where
  "decimal_lib = \<lparr>toInt = decimal, toFloat = (\<lambda>str. real_of_int (decimal str))\<rparr>"

text \<open>The step of the scenario: forward, 100 steps, from 10 to 50 steps/s at 5 steps/s2.\<close>

definition scenario_step :: Step where
  "scenario_step =
     \<lparr>forward = True, distance = 100, start_speed = 10, end_speed = 50, accel = 5\<rparr>"


definition braking_step :: Step where
  "braking_step =
     \<lparr>forward = False, distance = 200, start_speed = 50, end_speed = 10, accel = - 5\<rparr>"

definition capped_step :: Step where
  "capped_step =
     \<lparr>forward = True, distance = 100, start_speed = 50, end_speed = 10, accel = 5\<rparr>"

definition cruise_step :: Step where
  "cruise_step =
     \<lparr>forward = True, distance = 2048, start_speed = 300, end_speed = 500, accel = 0\<rparr>"

text \<open>The state \<open>s\<close> with the motor at the position \<open>p\<close>.\<close>

definition at_position :: "int \<Rightarrow> sys \<Rightarrow> sys" where
  "at_position p s = s\<lparr>stepper := (stepper s)\<lparr>currentPosition := p\<rparr>\<rparr>"

text \<open>
  The session after the command \<^verbatim>\<open>M\<close> with the answers forward, 2048 steps, 300 and
  500 steps/s, acceleration 0; and the session after \<^verbatim>\<open>x\<close> is then entered.
\<close>

definition manual_state :: sys where
  "manual_state =
     the (loop decimal_lib
           \<lparr>due = False, arrived = [''M'', ''F'', ''2048'', ''300'', ''500'', ''0'']\<rparr>
           setup_sketch)"

definition aborted_state :: sys where
  "aborted_state = the (loop decimal_lib \<lparr>due = True, arrived = ['' x'']\<rparr> manual_state)"

text \<open>Stores for the examples: three stored steps, the same with input waiting, and a full store.\<close>

definition three_steps :: sys where
  "three_steps =
     setup_sketch\<lparr>program := [scenario_step, braking_step, cruise_step, capped_step, capped_step],
                   programCount := 3\<rparr>"

definition adding_state :: sys where
  "adding_state = three_steps\<lparr>rx := [''F'', ''2048'', ''300'', ''500'', ''0'']\<rparr>"

definition full_store :: sys where
  "full_store = three_steps\<lparr>programCount := 5\<rparr>"

text \<open>The editor with three stored steps and the lines \<^verbatim>\<open>D 65537\<close> and \<^verbatim>\<open>Q\<close> received.\<close>

definition typed_delete :: sys where
  "typed_delete = three_steps\<lparr>rx := [''D 65537'', ''Q'']\<rparr>"

text \<open>The messages that mark an abort, the end of a program and the start of a step.\<close>

definition msg_aborted :: tok where
  "msg_aborted = Txt (CHR 0x0A # ''[ABORTED] Motor stopped.'')"

definition msg_complete :: tok where
  "msg_complete = Txt (CHR 0x0A # ''[DONE] Program complete.'')"

definition msg_starting :: tok where
  "msg_starting = Txt ''] Starting...''"

text \<open>
  A program of two moves of one step each, the session after the command \<^verbatim>\<open>R\<close> on it,
  and a call on which a step is due and nothing is received.
\<close>

definition unit_step :: Step where
  "unit_step = \<lparr>forward = True, distance = 1, start_speed = 10, end_speed = 10, accel = 0\<rparr>"

definition two_steps :: sys where
  "two_steps =
     setup_sketch\<lparr>program := [unit_step, unit_step, capped_step, capped_step, capped_step],
                   programCount := 2\<rparr>"

definition running :: sys where
  "running = case_R two_steps"

definition due_tick :: env where
  "due_tick = \<lparr>due = True, arrived = []\<rparr>"

text \<open>
  The invariant of the store: five slots, at most five in use, every stored step in the
  ranges of \<open>valid_step\<close>, and a running program is at one of its steps.
\<close>

definition store_inv :: "sys \<Rightarrow> bool" where
  "store_inv s \<longleftrightarrow>
     store_ok s \<and> list_all valid_step (listing s) \<and>
     (state s = STATE_MOVING_PROG \<longrightarrow> progStepIndex s < programCount s)"

section \<open>Properties of the velocity profile\<close>

lemmas step_examples =
  scenario_step_def braking_step_def capped_step_def cruise_step_def
  valid_step_def ABS_MAX_SPEED_def ABS_MAX_ACCEL_def

lemma startStep_globals:
  "g_accel (startStep st s) = accel st"
  "g_start_speed (startStep st s) = max 1 (start_speed st)"
  "g_end_speed (startStep st s) = max 1 (end_speed st)"
  "g_target_dist (startStep st s) = distance st"
  "g_fwd (startStep st s) = forward st"
  "g_moving (startStep st s)"
  by (simp_all add: startStep_def Let_def)

lemma computeSpeed_const:
  "g_accel s = 0 \<or> g_start_speed s = g_end_speed s \<Longrightarrow> computeSpeed s n = g_start_speed s"
  by (simp add: computeSpeed_def)

text \<open>On a ramp the speed is the clamped square root, floored at 1.\<close>

lemma computeSpeed_ramp:
  "g_accel s \<noteq> 0 \<Longrightarrow> g_start_speed s \<noteq> g_end_speed s \<Longrightarrow>
   computeSpeed s n =
     max (if 0 < g_accel s
          then min (sqrt (max 0 (g_start_speed s * g_start_speed s +
                                  2 * g_accel s * real_of_int n))) (g_end_speed s)
          else max (sqrt (max 0 (g_start_speed s * g_start_speed s +
                                  2 * g_accel s * real_of_int n))) (g_end_speed s)) 1"
  by (simp add: computeSpeed_def Let_def max_def)

lemma clamp_up_mono: "a \<le> b \<Longrightarrow> max (min a e) 1 \<le> max (min b e) (1::real)"
  by (simp add: min_def max_def)

lemma clamp_down_mono: "a \<le> b \<Longrightarrow> max (max a e) 1 \<le> max (max b e) (1::real)"
  by (simp add: max_def)

lemma computeSpeed_mono_up:
  assumes "0 < g_accel s" and "n \<le> m"
  shows "computeSpeed s n \<le> computeSpeed s m"
proof (cases "g_start_speed s = g_end_speed s")
  case True
  then show ?thesis by (simp add: computeSpeed_const)
next
  case False
  let ?r = "\<lambda>k. sqrt (max 0 (g_start_speed s * g_start_speed s +
                               2 * g_accel s * real_of_int k))"
  have "2 * g_accel s * real_of_int n \<le> 2 * g_accel s * real_of_int m"
    using assms by (simp add: mult_left_mono)
  then have "?r n \<le> ?r m"
    by (simp add: max_def)
  then have "max (min (?r n) (g_end_speed s)) 1 \<le> max (min (?r m) (g_end_speed s)) 1"
    by (rule clamp_up_mono)
  then show ?thesis
    using False assms(1) by (simp add: computeSpeed_ramp)
qed

lemma computeSpeed_mono_down:
  assumes "g_accel s < 0" and "n \<le> m"
  shows "computeSpeed s m \<le> computeSpeed s n"
proof (cases "g_start_speed s = g_end_speed s")
  case True
  then show ?thesis by (simp add: computeSpeed_const)
next
  case False
  let ?r = "\<lambda>k. sqrt (max 0 (g_start_speed s * g_start_speed s +
                               2 * g_accel s * real_of_int k))"
  have "2 * g_accel s * real_of_int m \<le> 2 * g_accel s * real_of_int n"
    using assms by (simp add: mult_left_mono_neg)
  then have "?r m \<le> ?r n"
    by (simp add: max_def)
  then have "max (max (?r m) (g_end_speed s)) 1 \<le> max (max (?r n) (g_end_speed s)) 1"
    by (rule clamp_down_mono)
  then show ?thesis
    using False assms(1) by (simp add: computeSpeed_ramp)
qed

lemma computeSpeed_le_end:
  assumes "0 < g_accel s" and "1 \<le> g_end_speed s"
  shows "computeSpeed s n \<le> g_end_speed s"
  using assms by (cases "g_start_speed s = g_end_speed s")
    (simp_all add: computeSpeed_const computeSpeed_ramp)

lemma computeSpeed_ge_end:
  assumes "g_accel s < 0" and "1 \<le> g_start_speed s"
  shows "max (g_end_speed s) 1 \<le> computeSpeed s n"
  using assms by (cases "g_start_speed s = g_end_speed s")
    (simp_all add: computeSpeed_const computeSpeed_ramp)

lemma computeSpeed_capped:
  assumes "0 < g_accel s" and "g_end_speed s < g_start_speed s"
    and "1 \<le> g_end_speed s" and "0 \<le> n"
  shows "computeSpeed s n = g_end_speed s"
proof -
  let ?v2 = "g_start_speed s * g_start_speed s + 2 * g_accel s * real_of_int n"
  have pos: "0 \<le> g_start_speed s" using assms by simp
  have "0 \<le> 2 * g_accel s * real_of_int n" using assms by simp
  then have "g_start_speed s * g_start_speed s \<le> max 0 ?v2" by simp
  then have "sqrt (g_start_speed s * g_start_speed s) \<le> sqrt (max 0 ?v2)"
    by (rule real_sqrt_le_mono)
  then have "g_start_speed s \<le> sqrt (max 0 ?v2)" using pos by simp
  then have "min (sqrt (max 0 ?v2)) (g_end_speed s) = g_end_speed s"
    using assms(2) by simp
  then show ?thesis using assms by (simp add: computeSpeed_ramp)
qed

lemma valid_step_speeds:
  assumes "valid_step st"
  shows "g_start_speed (startStep st s) = start_speed st \<and>
         g_end_speed (startStep st s) = end_speed st \<and>
         1 \<le> start_speed st \<and> 1 \<le> end_speed st"
  using assms by (simp add: valid_step_def startStep_globals)

text \<open>
  C3: for a step with a positive acceleration the speeds returned for increasing
  \<open>steps_done\<close> never decrease and never exceed \<open>end_speed\<close>; for a step with a negative
  acceleration they never increase and never drop below \<open>max end_speed 1\<close>.
\<close>

theorem profile_monotone:
  assumes "valid_step st" and "n \<le> m"
  shows "(0 < accel st \<longrightarrow>
            profile st s n \<le> profile st s m \<and> profile st s n \<le> end_speed st) \<and>
         (accel st < 0 \<longrightarrow>
            profile st s m \<le> profile st s n \<and> max (end_speed st) 1 \<le> profile st s n)"
proof -
  note v = valid_step_speeds[OF assms(1), of s]
  show ?thesis
  proof (intro conjI impI)
    assume "0 < accel st"
    then have a: "0 < g_accel (startStep st s)" by (simp add: startStep_globals)
    show "profile st s n \<le> profile st s m"
      unfolding profile_def using a assms(2) by (rule computeSpeed_mono_up)
    show "profile st s n \<le> end_speed st"
      using computeSpeed_le_end[OF a, of n] v by (simp add: profile_def)
  next
    assume "accel st < 0"
    then have a: "g_accel (startStep st s) < 0" by (simp add: startStep_globals)
    show "profile st s m \<le> profile st s n"
      unfolding profile_def using a assms(2) by (rule computeSpeed_mono_down)
    show "max (end_speed st) 1 \<le> profile st s n"
      using computeSpeed_ge_end[OF a, of n] v by (simp add: profile_def)
  qed
qed

theorem profile_monotone_witness:
  "valid_step scenario_step \<and> 0 < accel scenario_step \<and>
   profile scenario_step setup_sketch 0 \<le> profile scenario_step setup_sketch 160 \<and>
   profile scenario_step setup_sketch 0 \<le> end_speed scenario_step \<and>
   valid_step braking_step \<and> accel braking_step < 0 \<and>
   profile braking_step setup_sketch 160 \<le> profile braking_step setup_sketch 0 \<and>
   max (end_speed braking_step) 1 \<le> profile braking_step setup_sketch 0"
  using profile_monotone[where st = scenario_step and s = setup_sketch and n = 0 and m = 160]
    profile_monotone[where st = braking_step and s = setup_sketch and n = 0 and m = 160]
  by (simp add: step_examples)

text \<open>
  C4: for a step with acceleration 0, and likewise for a step whose start and end speeds
  are equal, the profile returns \<open>start_speed\<close> for every \<open>steps_done\<close>; the values of
  \<open>steps_done\<close> in \<open>[0, distance)\<close> are among them.
\<close>

theorem profile_constant:
  assumes "valid_step st" and "accel st = 0 \<or> start_speed st = end_speed st"
  shows "profile st s n = start_speed st"
proof -
  note v = valid_step_speeds[OF assms(1), of s]
  have "g_accel (startStep st s) = 0 \<or>
      g_start_speed (startStep st s) = g_end_speed (startStep st s)"
    using assms(2) v by (auto simp: startStep_globals)
  then show ?thesis
    using v by (simp add: profile_def computeSpeed_const)
qed

theorem profile_constant_witness:
  "valid_step cruise_step \<and> accel cruise_step = 0 \<and>
   profile cruise_step setup_sketch 2047 = 300 \<and>
   valid_step (capped_step\<lparr>end_speed := 50\<rparr>) \<and>
   profile (capped_step\<lparr>end_speed := 50\<rparr>) setup_sketch 99 = 50"
  using profile_constant[where st = cruise_step and s = setup_sketch and n = 2047]
    profile_constant[where st = "capped_step\<lparr>end_speed := 50\<rparr>" and s = setup_sketch
      and n = 99]
  by (simp add: step_examples)

text \<open>
  C10: for a step with a positive acceleration and an end speed below its start speed,
  the profile returns \<open>end_speed\<close> for every \<open>steps_done \<ge> 0\<close>: the move never runs at
  its start speed.
\<close>

theorem profile_capped_at_start:
  assumes "valid_step st" and "0 < accel st" and "end_speed st < start_speed st"
    and "0 \<le> n"
  shows "profile st s n = end_speed st"
proof -
  note v = valid_step_speeds[OF assms(1), of s]
  have "computeSpeed (startStep st s) n = g_end_speed (startStep st s)"
    using assms v by (intro computeSpeed_capped) (simp_all add: startStep_globals)
  then show ?thesis by (simp add: profile_def v)
qed

theorem profile_capped_at_start_witness:
  "valid_step capped_step \<and> 0 < accel capped_step \<and>
   end_speed capped_step < start_speed capped_step \<and>
   profile capped_step setup_sketch 0 = 10 \<and> start_speed capped_step = 50"
  using profile_capped_at_start[where st = capped_step and s = setup_sketch and n = 0]
  by (simp add: step_examples)

subsection \<open>The scenario step\<close>

lemma sqrt_100: "sqrt 100 = 10"
proof -
  have "sqrt (10 * 10) = 10" by (simp only: real_sqrt_abs2 abs_numeral)
  then show ?thesis by simp
qed

lemma sqrt_2500: "sqrt 2500 = 50"
proof -
  have "sqrt (50 * 50) = 50" by (simp only: real_sqrt_abs2 abs_numeral)
  then show ?thesis by simp
qed

lemma sqrt_1700_bounds: "1 \<le> sqrt 1700" "sqrt 1700 < 50"
proof -
  show "1 \<le> sqrt 1700" by (rule real_sqrt_ge_one) simp
  have "sqrt 1700 < sqrt 2500" by (rule real_sqrt_less_mono) simp
  then show "sqrt 1700 < 50" by (simp only: sqrt_2500)
qed

lemma scenario_globals:
  "g_accel (startStep scenario_step s) = 5"
  "g_start_speed (startStep scenario_step s) = 10"
  "g_end_speed (startStep scenario_step s) = 50"
  "g_target_dist (startStep scenario_step s) = 100"
  by (simp_all add: startStep_globals scenario_step_def)

lemma scenario_profile:
  "profile scenario_step s n = max (min (sqrt (max 0 (100 + 10 * real_of_int n))) 50) 1"
  by (simp add: profile_def computeSpeed_ramp scenario_globals)

lemma scenario_0: "profile scenario_step s 0 = 10"
  by (simp add: scenario_profile sqrt_100)

lemma scenario_160: "profile scenario_step s 160 = sqrt 1700"
  using sqrt_1700_bounds by (simp add: scenario_profile)

lemma scenario_240: "profile scenario_step s (240 + int k) = 50"
proof -
  have "sqrt 2500 \<le> sqrt (max 0 (100 + 10 * real_of_int (240 + int k)))"
    by (rule real_sqrt_le_mono) simp
  then have "50 \<le> sqrt (max 0 (100 + 10 * real_of_int (240 + int k)))"
    by (simp only: sqrt_2500)
  then show ?thesis by (simp add: scenario_profile)
qed

lemma scenario_done:
  "move_done (at_position p (startStep scenario_step s)) = (100 \<le> \<bar>p\<bar>)"
  by (simp add: move_done_def at_position_def scenario_globals)

text \<open>
  C5, as the spec states it, fails: at \<open>steps_done = 160\<close> the squared speed is
  \<open>10 * 10 + 2 * 5 * 160 = 1700\<close>, not 3300, and the profile returns the square root of
  1700, which is below the end speed 50.
\<close>

theorem scenario_160_not_clamped: "profile scenario_step setup_sketch 160 \<noteq> 50"
  using sqrt_1700_bounds(2) by (simp add: scenario_160)

text \<open>
  C5, amended: for the step forward, 100 steps, from 10 to 50 steps/s at 5 steps/s2, the
  profile returns 10 at \<open>steps_done = 0\<close>, the square root of 1700 (about 41.2, below
  the clamp) at \<open>steps_done = 160\<close>, and exactly 50 from \<open>steps_done = 240\<close> on; the
  completion test of \<^verbatim>\<open>loop()\<close> holds exactly when \<open>steps_done\<close>, the absolute value
  of the position, has reached 100, whatever the speeds were.
\<close>

theorem scenario_profile_and_completion:
  "profile scenario_step s 0 = 10 \<and>
   profile scenario_step s 160 = sqrt 1700 \<and> sqrt 1700 < 50 \<and>
   profile scenario_step s (240 + int k) = 50 \<and>
   move_done (at_position p (startStep scenario_step s)) = (100 \<le> \<bar>p\<bar>)"
  using scenario_0 scenario_160 sqrt_1700_bounds(2) scenario_240 scenario_done by simp

section \<open>Properties of the state machine\<close>

subsection \<open>What each operation leaves unchanged\<close>

lemma emit_fields [simp]:
  "program (emit ts s) = program s"
  "programCount (emit ts s) = programCount s"
  "g_moving (emit ts s) = g_moving s"
  "g_target_dist (emit ts s) = g_target_dist s"
  "g_start_speed (emit ts s) = g_start_speed s"
  "g_end_speed (emit ts s) = g_end_speed s"
  "g_accel (emit ts s) = g_accel s"
  "g_fwd (emit ts s) = g_fwd s"
  "state (emit ts s) = state s"
  "progStepIndex (emit ts s) = progStepIndex s"
  "stepper (emit ts s) = stepper s"
  "tx (emit ts s) = tx s @ ts"
  by (simp_all add: emit_def)

lemma printMainMenu_fields [simp]:
  "program (printMainMenu s) = program s"
  "programCount (printMainMenu s) = programCount s"
  "g_moving (printMainMenu s) = g_moving s"
  "state (printMainMenu s) = state s"
  "progStepIndex (printMainMenu s) = progStepIndex s"
  "stepper (printMainMenu s) = stepper s"
  "rx (printMainMenu s) = rx s"
  "tx (printMainMenu s) = tx s @ main_menu (programCount s)"
  by (simp_all add: printMainMenu_def)

lemma printProgram_fields [simp]:
  "program (printProgram s) = program s"
  "programCount (printProgram s) = programCount s"
  "g_moving (printProgram s) = g_moving s"
  "state (printProgram s) = state s"
  "progStepIndex (printProgram s) = progStepIndex s"
  "stepper (printProgram s) = stepper s"
  by (simp_all add: printProgram_def)

lemma startStep_fields [simp]:
  "program (startStep st s) = program s"
  "programCount (startStep st s) = programCount s"
  "state (startStep st s) = state s"
  "progStepIndex (startStep st s) = progStepIndex s"
  "rx (startStep st s) = rx s"
  "tx (startStep st s) = tx s"
  "outputs (stepper (startStep st s)) = outputs (stepper s)"
  "pulses (stepper (startStep st s)) = pulses (stepper s)"
  "currentPosition (stepper (startStep st s)) = 0"
  by (simp_all add: startStep_def Let_def setSpeed_def setMaxSpeed_def setCurrentPosition_def)

lemma service_fields [simp]:
  "program (service d s) = program s"
  "programCount (service d s) = programCount s"
  "g_moving (service d s) = g_moving s"
  "g_target_dist (service d s) = g_target_dist s"
  "state (service d s) = state s"
  "progStepIndex (service d s) = progStepIndex s"
  "rx (service d s) = rx s"
  "tx (service d s) = tx s"
  "outputs (stepper (service d s)) = outputs (stepper s)"
  by (simp_all add: service_def Let_def runSpeed_def setSpeed_def setMaxSpeed_def)

lemma service_idle: "\<not> g_moving s \<Longrightarrow> service d s = s"
  by (simp add: service_def)

lemma after_service_fields [simp]:
  "program (after_service e s) = program s"
  "programCount (after_service e s) = programCount s"
  "g_moving (after_service e s) = g_moving s"
  "g_target_dist (after_service e s) = g_target_dist s"
  "state (after_service e s) = state s"
  "progStepIndex (after_service e s) = progStepIndex s"
  "rx (after_service e s) = rx s @ arrived e"
  "tx (after_service e s) = tx s"
  "outputs (stepper (after_service e s)) = outputs (stepper s)"
  by (simp_all add: after_service_def)

lemma after_service_idle:
  "\<not> g_moving s \<Longrightarrow> stepper (after_service e s) = stepper s"
  by (simp add: after_service_def service_idle)

text \<open>The maximum speed is not negative once the motion has been serviced.\<close>

lemma service_maxSpeed: "g_moving s \<Longrightarrow> 0 \<le> maxSpeed (stepper (service d s))"
  by (simp add: service_def Let_def runSpeed_def setSpeed_def setMaxSpeed_def)

lemma delete_shift_fields [simp]:
  "programCount (delete_shift i s) = programCount s"
  "g_moving (delete_shift i s) = g_moving s"
  "state (delete_shift i s) = state s"
  "progStepIndex (delete_shift i s) = progStepIndex s"
  "stepper (delete_shift i s) = stepper s"
  "tx (delete_shift i s) = tx s"
  by (induction i s rule: delete_shift.induct; subst delete_shift.simps; simp)+

lemma editor_delete_fields [simp]:
  "g_moving (editor_delete idx s) = g_moving s"
  "state (editor_delete idx s) = state s"
  "progStepIndex (editor_delete idx s) = progStepIndex s"
  "stepper (editor_delete idx s) = stepper s"
  by (simp_all add: editor_delete_def Let_def)

lemma editor_add_fields:
  assumes "editor_add L s = Some s'"
  shows "g_moving s' = g_moving s \<and> state s' = state s \<and>
         progStepIndex s' = progStepIndex s \<and> stepper s' = stepper s"
  using assms by (auto simp: editor_add_def Let_def split: if_splits option.splits)



text \<open>
  A property that the primitive operations of the editor preserve is preserved by the
  whole editing session.
\<close>

lemma editor_invariant:
  assumes emit: "\<And>ts t. Q t \<Longrightarrow> Q (emit ts t)"
    and prog: "\<And>t. Q t \<Longrightarrow> Q (printProgram t)"
    and read: "\<And>r t. Q t \<Longrightarrow> Q (t\<lparr>rx := r\<rparr>)"
    and add: "\<And>M t t'. Q t \<Longrightarrow> editor_add M t = Some t' \<Longrightarrow> Q t'"
    and del: "\<And>idx t. Q t \<Longrightarrow> Q (editor_delete idx t)"
  shows "Q s \<Longrightarrow> editor L s = Some s' \<Longrightarrow> Q s'"
proof (induction L s rule: editor.induct)
  case (1 L s)
  let ?s1 = "emit (println (CHR 0x0A # ''[A] Add step  [D n] Delete step  [Q] Back'') @
                   print ''> '') (printProgram s)"
  from "1.prems"(2) obtain l r where rxeq: "rx ?s1 = l # r"
    by (subst (asm) editor.simps) (auto simp: Let_def split: list.splits)
  let ?s2 = "?s1\<lparr>rx := r\<rparr>"
  let ?str = "trim l"
  let ?ec = "toupper (?str ! 0)"
  have Q2: "Q ?s2" using "1.prems"(1) by (intro read emit prog)
  have ed: "(if length ?str = 0 then editor L ?s2
             else if ?ec = CHR ''Q'' then Some ?s2
             else if ?ec = CHR ''A'' then
               (case editor_add L ?s2 of None \<Rightarrow> None | Some s3 \<Rightarrow> editor L s3)
             else if ?ec = CHR ''D'' then
               (if length ?str < 3 then editor L (emit (println ''! Usage: D <n>'') ?s2)
                else editor L (editor_delete (to_int16 (toInt L (drop 2 ?str) - 1)) ?s2))
             else editor L (emit (println ''! Use A, D <n>, or Q.'') ?s2)) = Some s'"
    using "1.prems"(2) by (simp only: editor.simps[of L s] Let_def rxeq list.case)
  show ?case
  proof (cases "length ?str = 0")
    case True
    with ed have "editor L ?s2 = Some s'" by simp
    from "1.IH"(1)[OF refl rxeq refl refl True Q2 this] show ?thesis .
  next
    case ne: False
    show ?thesis
    proof (cases "?ec = CHR ''Q''")
      case True
      with ne ed have "s' = ?s2" by simp
      with Q2 show ?thesis by simp
    next
      case nq: False
      show ?thesis
      proof (cases "?ec = CHR ''A''")
        case True
        with ne nq ed obtain s3 where a: "editor_add L ?s2 = Some s3"
          and e: "editor L s3 = Some s'"
          by (auto split: option.splits)
        have "Q s3" using Q2 a by (rule add)
        from "1.IH"(2)[OF refl rxeq refl refl ne refl nq True a this e] show ?thesis .
      next
        case na: False
        show ?thesis
        proof (cases "?ec = CHR ''D''")
          case d: True
          show ?thesis
          proof (cases "length ?str < 3")
            case True
            with ne nq na d ed
            have e: "editor L (emit (println ''! Usage: D <n>'') ?s2) = Some s'" by simp
            have "Q (emit (println ''! Usage: D <n>'') ?s2)" using Q2 by (rule emit)
            from "1.IH"(3)[OF refl rxeq refl refl ne refl nq na d True this e]
            show ?thesis .
          next
            case False
            with ne nq na d ed
            have e: "editor L (editor_delete (to_int16 (toInt L (drop 2 ?str) - 1)) ?s2)
                     = Some s'" by simp
            have "Q (editor_delete (to_int16 (toInt L (drop 2 ?str) - 1)) ?s2)"
              using Q2 by (rule del)
            from "1.IH"(4)[OF refl rxeq refl refl ne refl nq na d False this e]
            show ?thesis .
          qed
        next
          case nd: False
          with ne nq na ed
          have e: "editor L (emit (println ''! Use A, D <n>, or Q.'') ?s2) = Some s'"
            by simp
          have "Q (emit (println ''! Use A, D <n>, or Q.'') ?s2)" using Q2 by (rule emit)
          from "1.IH"(5)[OF refl rxeq refl refl ne refl nq na nd this e] show ?thesis .
        qed
      qed
    qed
  qed
qed

lemma editor_fields:
  assumes "editor L s = Some s'"
  shows "g_moving s' = g_moving s \<and> state s' = state s \<and>
         progStepIndex s' = progStepIndex s \<and> stepper s' = stepper s"
proof -
  let ?Q = "\<lambda>t. g_moving t = g_moving s \<and> state t = state s \<and>
                 progStepIndex t = progStepIndex s \<and> stepper t = stepper s"
  have "?Q s'"
  proof (rule editor_invariant[where Q = ?Q and L = L and s = s])
    show "?Q s" by simp
    show "editor L s = Some s'" by (rule assms)
  qed (auto dest: editor_add_fields)
  then show ?thesis .
qed

subsection \<open>The active-move flag follows the session state\<close>

lemma finish_move_moving:
  "state s \<noteq> STATE_IDLE \<Longrightarrow>
   g_moving (finish_move s) = (state (finish_move s) \<noteq> STATE_IDLE)"
  by (cases "state s") (simp_all add: finish_move_def Let_def startStep_def)

lemma abort_check_moving:
  "g_moving s = (state s \<noteq> STATE_IDLE) \<Longrightarrow>
   g_moving (abort_check s) = (state (abort_check s) \<noteq> STATE_IDLE)"
  by (simp add: abort_check_def Let_def split: list.splits)

lemma case_M_moving:
  assumes "case_M L s = Some s'"
  shows "g_moving s' \<and> state s' = STATE_MOVING_MANUAL \<and>
         pulses (stepper s') = pulses (stepper s)"
  using assms
  by (auto simp: case_M_def Let_def startStep_globals enableOutputs_def
      split: option.splits)

lemma case_P_moving:
  assumes "case_P L s = Some s'"
  shows "g_moving s' = g_moving s \<and> state s' = state s \<and> stepper s' = stepper s"
  using assms by (auto simp: case_P_def split: option.splits dest!: editor_fields)

lemma case_R_moving:
  assumes "state s = STATE_IDLE" and "\<not> g_moving s"
  shows "g_moving (case_R s) = (state (case_R s) \<noteq> STATE_IDLE) \<and>
         pulses (stepper (case_R s)) = pulses (stepper s)"
  using assms by (simp add: case_R_def Let_def startStep_globals enableOutputs_def)

lemma case_other_moving:
  "g_moving (case_S s) = g_moving s \<and> state (case_S s) = state s \<and>
   stepper (case_S s) = stepper s"
  "g_moving (case_C s) = g_moving s \<and> state (case_C s) = state s \<and>
   stepper (case_C s) = stepper s"
  "g_moving (case_help s) = g_moving s \<and> state (case_help s) = state s \<and>
   stepper (case_help s) = stepper s"
  "g_moving (case_default cmd s) = g_moving s \<and> state (case_default cmd s) = state s \<and>
   stepper (case_default cmd s) = stepper s"
  by (simp_all add: case_S_def case_C_def case_help_def case_default_def)

lemma idle_command_cases:
  assumes "idle_command L s = Some s'" and "rx s = l # r"
  shows "s' = printMainMenu (s\<lparr>rx := r\<rparr>) \<or>
         case_M L (s\<lparr>rx := r\<rparr>) = Some s' \<or>
         case_P L (s\<lparr>rx := r\<rparr>) = Some s' \<or>
         s' = case_R (s\<lparr>rx := r\<rparr>) \<or>
         s' = case_S (s\<lparr>rx := r\<rparr>) \<or>
         s' = case_C (s\<lparr>rx := r\<rparr>) \<or>
         s' = case_help (s\<lparr>rx := r\<rparr>) \<or>
         (\<exists>cmd. s' = case_default cmd (s\<lparr>rx := r\<rparr>))"
  using assms by (auto simp: idle_command_def Let_def split: if_splits)

lemma idle_command_moving:
  assumes "state s = STATE_IDLE" and "\<not> g_moving s" and "idle_command L s = Some s'"
  shows "g_moving s' = (state s' \<noteq> STATE_IDLE) \<and> pulses (stepper s') = pulses (stepper s)"
proof (cases "rx s")
  case Nil
  with assms show ?thesis by (simp add: idle_command_def)
next
  case (Cons l r)
  let ?s1 = "s\<lparr>rx := r\<rparr>"
  have s1: "state ?s1 = STATE_IDLE" "\<not> g_moving ?s1" "stepper ?s1 = stepper s"
    using assms by simp_all
  from idle_command_cases[OF assms(3) Cons] consider
      "s' = printMainMenu ?s1" | "case_M L ?s1 = Some s'" | "case_P L ?s1 = Some s'"
    | "s' = case_R ?s1" | "s' = case_S ?s1" | "s' = case_C ?s1" | "s' = case_help ?s1"
    | cmd where "s' = case_default cmd ?s1"
    by blast
  then show ?thesis
  proof cases
    case 1
    with s1 show ?thesis by simp
  next
    case 2
    from case_M_moving[OF this] s1 show ?thesis by simp
  next
    case 3
    from case_P_moving[OF this] s1 show ?thesis by simp
  next
    case 4
    with case_R_moving[OF s1(1,2)] s1 show ?thesis by simp
  next
    case 5
    with case_other_moving(1)[of ?s1] s1 show ?thesis by simp
  next
    case 6
    with case_other_moving(2)[of ?s1] s1 show ?thesis by simp
  next
    case 7
    with case_other_moving(3)[of ?s1] s1 show ?thesis by simp
  next
    case 8
    with case_other_moving(4)[of _ ?s1] s1 show ?thesis by simp
  qed
qed

lemma loop_moving:
  assumes "g_moving s = (state s \<noteq> STATE_IDLE)" and "loop L e s = Some s'"
  shows "g_moving s' = (state s' \<noteq> STATE_IDLE)"
proof (cases "state s = STATE_IDLE")
  case True
  then have "idle_command L (after_service e s) = Some s'"
    using assms(2) by (simp add: loop_def Let_def)
  moreover have "state (after_service e s) = STATE_IDLE" "\<not> g_moving (after_service e s)"
    using True assms(1) by simp_all
  ultimately show ?thesis using idle_command_moving by blast
next
  case False
  then have m: "state s = STATE_MOVING_MANUAL \<or> state s = STATE_MOVING_PROG"
    by (cases "state s") simp_all
  show ?thesis
  proof (cases "move_done (after_service e s)")
    case True
    with m assms(2) have "s' = finish_move (after_service e s)"
      by (auto simp: loop_def Let_def)
    with False show ?thesis by (simp add: finish_move_moving)
  next
    case nd: False
    with m assms(2) have "s' = abort_check (after_service e s)"
      by (auto simp: loop_def Let_def)
    with assms(1) show ?thesis by (simp add: abort_check_moving)
  qed
qed

lemma setup_sketch_fields:
  "state setup_sketch = STATE_IDLE" "\<not> g_moving setup_sketch"
  by (simp_all add: setup_sketch_def globals0_def)

lemma reachable_moving: "reachable L s \<Longrightarrow> g_moving s = (state s \<noteq> STATE_IDLE)"
proof (induction rule: reachable.induct)
  case reachable_setup
  show ?case by (simp add: setup_sketch_fields)
next
  case (reachable_loop s e s')
  then show ?case by (simp add: loop_moving)
qed

lemma loop_idle_pulses:
  assumes "state s = STATE_IDLE" and "\<not> g_moving s" and "loop L e s = Some s'"
  shows "pulses (stepper s') = pulses (stepper s)"
proof -
  have "idle_command L (after_service e s) = Some s'"
    using assms by (simp add: loop_def Let_def)
  moreover have "state (after_service e s) = STATE_IDLE" "\<not> g_moving (after_service e s)"
    using assms by simp_all
  ultimately have "pulses (stepper s') = pulses (stepper (after_service e s))"
    using idle_command_moving by blast
  then show ?thesis using assms(2) by (simp add: after_service_idle)
qed

text \<open>
  C9: in every state reachable from the initial state by calls of \<^verbatim>\<open>loop()\<close>, if the
  session is in \<^verbatim>\<open>STATE_IDLE\<close> then \<^verbatim>\<open>g_moving\<close> is false: the motion-service block
  leaves the state as it is and the call issues no step.
\<close>

theorem idle_never_steps:
  assumes "reachable L s" and "state s = STATE_IDLE"
  shows "\<not> g_moving s \<and> service d s = s \<and>
         (\<forall>e s'. loop L e s = Some s' \<longrightarrow> pulses (stepper s') = pulses (stepper s))"
proof -
  have nm: "\<not> g_moving s" using reachable_moving[OF assms(1)] assms(2) by simp
  then show ?thesis using assms(2) by (auto simp: service_idle dest: loop_idle_pulses)
qed

subsection \<open>Two reachable sessions\<close>

lemmas console_defs =
  promptStep_def promptDirection.simps promptLong.simps promptFloat.simps promptLine_def
  toUpperCase_def trim_def isspace_def toupper_def decimal_lib_def decimal_def
  ABS_MAX_SPEED_def ABS_MAX_ACCEL_def Let_def

lemma prompt_cruise:
  "promptStep decimal_lib [''F'', ''2048'', ''300'', ''500'', ''0''] out =
   Some (cruise_step, [],
     out @ print ''  Direction (F=forward, B=backward) > '' @
     print ''  Distance  (steps, 1-999999) > '' @
     print ''  Start spd (steps/s, 1-1000) > '' @
     print ''  End spd   (steps/s, 1-1000) > '' @
     print ''  Accel     (steps/s2, -1000 to 1000) > '')"
  by (simp add: console_defs cruise_step_def)

lemma idle_setup: "after_service e setup_sketch = setup_sketch\<lparr>rx := arrived e\<rparr>"
  by (simp add: after_service_def service_def setup_sketch_def globals0_def printMainMenu_def emit_def)

lemma setup_sketch_rx: "setup_sketch\<lparr>rx := []\<rparr> = setup_sketch"
  by (simp add: setup_sketch_def globals0_def printMainMenu_def emit_def)

lemma manual_state_eq:
  "manual_state =
     (startStep cruise_step
        ((emit (println (CHR 0x0A # ''--- Manual Move ---'') @
           print ''  Direction (F=forward, B=backward) > '' @
           print ''  Distance  (steps, 1-999999) > '' @
           print ''  Start spd (steps/s, 1-1000) > '' @
           print ''  End spd   (steps/s, 1-1000) > '' @
           print ''  Accel     (steps/s2, -1000 to 1000) > '' @
           println ''Starting move... (type X + Enter to abort)'') setup_sketch)
         \<lparr>stepper := enableOutputs (stepper setup_sketch)\<rparr>))
     \<lparr>state := STATE_MOVING_MANUAL\<rparr>"
  by (simp add: manual_state_def loop_def idle_setup idle_command_def case_M_def prompt_cruise
      toUpperCase_def trim_def isspace_def toupper_def Let_def setup_sketch_fields emit_def setup_sketch_rx)

lemma manual_state_fields:
  "state manual_state = STATE_MOVING_MANUAL"
  "g_moving manual_state"
  "rx manual_state = []"
  "g_target_dist manual_state = 2048"
  "g_accel manual_state = 0"
  "g_start_speed manual_state = 300"
  "g_fwd manual_state"
  "currentPosition (stepper manual_state) = 0"
  "outputs (stepper manual_state)"
  by (simp_all add: manual_state_eq startStep_globals cruise_step_def enableOutputs_def
      setup_sketch_def globals0_def)

lemma manual_state_reachable: "reachable decimal_lib manual_state"
proof -
  have "loop decimal_lib
          \<lparr>due = False, arrived = [''M'', ''F'', ''2048'', ''300'', ''500'', ''0'']\<rparr>
          setup_sketch \<noteq> None"
    by (simp add: loop_def idle_setup idle_command_def case_M_def prompt_cruise
      toUpperCase_def trim_def isspace_def toupper_def Let_def setup_sketch_fields)
  then have "loop decimal_lib
          \<lparr>due = False, arrived = [''M'', ''F'', ''2048'', ''300'', ''500'', ''0'']\<rparr>
          setup_sketch = Some manual_state"
    by (auto simp: manual_state_def)
  with reachable_setup show ?thesis by (rule reachable_loop)
qed

lemma manual_after_service:
  "currentPosition (stepper (after_service \<lparr>due = True, arrived = ls\<rparr> manual_state)) = 1"
  by (simp add: after_service_def service_def manual_state_fields computeSpeed_const
      runSpeed_def setSpeed_def setMaxSpeed_def Let_def)

lemma abort_manual:
  "loop decimal_lib \<lparr>due = True, arrived = ['' x'']\<rparr> manual_state =
   Some (abort_check (after_service \<lparr>due = True, arrived = ['' x'']\<rparr> manual_state))"
  by (simp add: loop_def Let_def manual_state_fields move_done_def manual_after_service)

lemma aborted_state_fields:
  "state aborted_state = STATE_IDLE"
  by (simp_all add: aborted_state_def abort_manual abort_check_def manual_state_fields
      toUpperCase_def trim_def isspace_def toupper_def Let_def)

lemma aborted_state_reachable: "reachable decimal_lib aborted_state"
  using manual_state_reachable
  by (rule reachable_loop[where e = "\<lparr>due = True, arrived = ['' x'']\<rparr>"])
    (simp add: aborted_state_def abort_manual)

theorem idle_never_steps_witness:
  "reachable decimal_lib aborted_state \<and> state aborted_state = STATE_IDLE \<and>
   \<not> g_moving aborted_state \<and> service True aborted_state = aborted_state"
  using idle_never_steps[OF aborted_state_reachable aborted_state_fields(1), of True]
    aborted_state_reachable aborted_state_fields by simp

subsection \<open>Abort\<close>

lemma after_service_maxSpeed:
  "g_moving s \<Longrightarrow> 0 \<le> maxSpeed (stepper (after_service e s))"
  by (simp add: after_service_def service_def Let_def runSpeed_def setSpeed_def setMaxSpeed_def)

lemma loop_moving_step:
  assumes "state s = STATE_MOVING_MANUAL \<or> state s = STATE_MOVING_PROG"
  shows "loop L e s =
     Some (if move_done (after_service e s) then finish_move (after_service e s)
           else abort_check (after_service e s))"
  using assms by (simp add: loop_def Let_def)

lemma abort_check_X:
  assumes "rx s = l # r" and "toUpperCase (trim l) = ''X''"
  shows "abort_check s =
     printMainMenu
       ((emit (println (CHR 0x0A # ''[ABORTED] Motor stopped.''))
          (s\<lparr>rx := r, g_moving := False,
              stepper := disableOutputs (setSpeed 0 (stepper s))\<rparr>))\<lparr>state := STATE_IDLE\<rparr>)"
  using assms by (simp add: abort_check_def Let_def)

lemma abort_check_other:
  assumes "rx s = l # r" and "toUpperCase (trim l) \<noteq> ''X''"
  shows "abort_check s = s\<lparr>rx := r\<rparr>"
  using assms by (simp add: abort_check_def Let_def)

lemma abort_check_none: "rx s = [] \<Longrightarrow> abort_check s = s"
  by (simp add: abort_check_def)

lemma stays_Cons:
  assumes "stays P L (e # es) s"
  obtains s1 where "P (state s)" and "loop L e s = Some s1" and "stays P L es s1"
  using assms by (cases "loop L e s") simp_all

lemma run_Cons:
  assumes "run L (e # es) s = Some s'" and "loop L e s = Some s1"
  shows "run L es s1 = Some s'"
  using assms by simp

lemma idle_run_pulses:
  "state s = STATE_IDLE \<Longrightarrow> \<not> g_moving s \<Longrightarrow>
   stays (\<lambda>x. x = STATE_IDLE) L es s \<Longrightarrow> run L es s = Some s' \<Longrightarrow>
   pulses (stepper s') = pulses (stepper s)"
proof (induction es arbitrary: s)
  case Nil
  then show ?case by simp
next
  case (Cons e es)
  from Cons.prems(3) obtain s1 where l: "loop L e s = Some s1"
    and st: "stays (\<lambda>x. x = STATE_IDLE) L es s1"
    by (rule stays_Cons)
  from Cons.prems(4) l have r: "run L es s1 = Some s'" by (rule run_Cons)
  have p: "pulses (stepper s1) = pulses (stepper s)"
    using Cons.prems(1,2) l by (rule loop_idle_pulses)
  have "g_moving s = (state s \<noteq> STATE_IDLE)" using Cons.prems(1,2) by simp
  then have m: "g_moving s1 = (state s1 \<noteq> STATE_IDLE)"
    using l by (rule loop_moving)
  show ?case
  proof (cases es)
    case Nil
    with r p show ?thesis by simp
  next
    case (Cons e' es')
    with st have i: "state s1 = STATE_IDLE" by (auto elim: stays_Cons)
    with m have "\<not> g_moving s1" by simp
    from Cons.IH[OF i this st r] p show ?thesis by simp
  qed
qed

text \<open>
  C2: on a call that processes an abort request during an active move (manual or
  program; the move is not complete on this call and the next received line is
  \<^verbatim>\<open>X\<close>), the commanded speed is set to zero and the outputs are disabled within the
  call, the message is printed and the session returns to \<^verbatim>\<open>STATE_IDLE\<close>; on the later
  calls, for as long as the session stays idle, no step is issued.
\<close>

theorem abort_stops_motor:
  assumes "state s = STATE_MOVING_MANUAL \<or> state s = STATE_MOVING_PROG"
    and "g_moving s"
    and "rx s @ arrived e = l # r" and "toUpperCase (trim l) = ''X''"
    and "\<not> move_done (after_service e s)"
  shows "\<exists>s'. loop L e s = Some s' \<and>
           speed (stepper s') = 0 \<and> \<not> outputs (stepper s') \<and>
           state s' = STATE_IDLE \<and> \<not> g_moving s' \<and>
           tx s' = tx s @ println (CHR 0x0A # ''[ABORTED] Motor stopped.'') @
                   main_menu (programCount s) \<and>
           (\<forall>es s''. stays (\<lambda>x. x = STATE_IDLE) L es s' \<longrightarrow> run L es s' = Some s'' \<longrightarrow>
              pulses (stepper s'') = pulses (stepper s'))"
proof -
  let ?t = "after_service e s"
  let ?s' = "abort_check ?t"
  have l: "loop L e s = Some ?s'"
    using assms(1,5) by (simp add: loop_moving_step)
  have rx: "rx ?t = l # r" using assms(3) by simp
  note eq = abort_check_X[OF rx assms(4)]
  have ms: "0 \<le> maxSpeed (stepper ?t)" using assms(2) by (rule after_service_maxSpeed)
  have sp: "speed (stepper ?s') = 0"
    using ms by (simp add: eq disableOutputs_def setSpeed_def)
  have out: "\<not> outputs (stepper ?s')"
    by (simp add: eq disableOutputs_def)
  have st: "state ?s' = STATE_IDLE" "\<not> g_moving ?s'"
    by (simp_all add: eq)
  have tx: "tx ?s' = tx s @ println (CHR 0x0A # ''[ABORTED] Motor stopped.'') @
                   main_menu (programCount s)"
    by (simp add: eq)
  have later: "\<forall>es s''. stays (\<lambda>x. x = STATE_IDLE) L es ?s' \<longrightarrow> run L es ?s' = Some s'' \<longrightarrow>
              pulses (stepper s'') = pulses (stepper ?s')"
    using idle_run_pulses[OF st] by blast
  show ?thesis
    by (rule exI[of _ ?s']) (intro conjI l sp out st tx later)
qed

theorem abort_stops_motor_witness:
  "state manual_state = STATE_MOVING_MANUAL \<and> g_moving manual_state \<and>
   \<not> move_done (after_service \<lparr>due = True, arrived = ['' x'']\<rparr> manual_state) \<and>
   (\<exists>s'. loop decimal_lib \<lparr>due = True, arrived = ['' x'']\<rparr> manual_state = Some s' \<and>
      speed (stepper s') = 0 \<and> \<not> outputs (stepper s') \<and> state s' = STATE_IDLE \<and>
      \<not> g_moving s')"
proof -
  have x: "toUpperCase (trim '' x'') = ''X''"
    by (simp add: toUpperCase_def trim_def isspace_def toupper_def)
  have nd: "\<not> move_done (after_service \<lparr>due = True, arrived = ['' x'']\<rparr> manual_state)"
    by (simp add: move_done_def manual_after_service manual_state_fields)
  have q: "rx manual_state @ arrived \<lparr>due = True, arrived = ['' x'']\<rparr> = '' x'' # []"
    by (simp add: manual_state_fields)
  have m: "state manual_state = STATE_MOVING_MANUAL \<or> state manual_state = STATE_MOVING_PROG"
    by (simp add: manual_state_fields)
  from abort_stops_motor[OF m manual_state_fields(2) q x nd, of decimal_lib]
  obtain s' where "loop decimal_lib \<lparr>due = True, arrived = ['' x'']\<rparr> manual_state = Some s'"
    "speed (stepper s') = 0" "\<not> outputs (stepper s')" "state s' = STATE_IDLE"
    "\<not> g_moving s'"
    by blast
  with manual_state_fields(1,2) nd show ?thesis by blast
qed

subsection \<open>Requests while a move is active\<close>

lemma finish_move_store [simp]:
  "program (finish_move s) = program s"
  "programCount (finish_move s) = programCount s"
  "rx (finish_move s) = rx s"
  by (simp_all add: finish_move_def Let_def)

lemma abort_check_store [simp]:
  "program (abort_check s) = program s"
  "programCount (abort_check s) = programCount s"
  by (simp_all add: abort_check_def Let_def split: list.splits)

text \<open>
  C1, amended: on every call made in \<^verbatim>\<open>STATE_MOVING_MANUAL\<close> or \<^verbatim>\<open>STATE_MOVING_PROG\<close> the
  program store is left unchanged. A program-edit request gets no answer: when the move
  is not complete on that call, a received line other than \<^verbatim>\<open>X\<close> is read and dropped,
  nothing is printed and the session state stays; when the move is complete on that
  call, the line is not read and stays in the receive queue.
\<close>

theorem edits_unanswered_while_moving:
  assumes "state s = STATE_MOVING_MANUAL \<or> state s = STATE_MOVING_PROG"
  shows "\<exists>s'. loop L e s = Some s' \<and>
           program s' = program s \<and> programCount s' = programCount s \<and>
           (\<not> move_done (after_service e s) \<longrightarrow>
              (\<forall>l r. rx s @ arrived e = l # r \<longrightarrow> toUpperCase (trim l) \<noteq> ''X'' \<longrightarrow>
                 tx s' = tx s \<and> rx s' = r \<and> state s' = state s)) \<and>
           (move_done (after_service e s) \<longrightarrow> rx s' = rx s @ arrived e)"
proof (cases "move_done (after_service e s)")
  case True
  with assms have "loop L e s = Some (finish_move (after_service e s))"
    by (simp add: loop_moving_step)
  with True show ?thesis by simp
next
  case False
  with assms have l: "loop L e s = Some (abort_check (after_service e s))"
    by (simp add: loop_moving_step)
  have "tx (abort_check (after_service e s)) = tx s \<and>
        rx (abort_check (after_service e s)) = r \<and>
        state (abort_check (after_service e s)) = state s"
    if "rx s @ arrived e = l # r" and "toUpperCase (trim l) \<noteq> ''X''" for l r
  proof -
    have "rx (after_service e s) = l # r" using that(1) by simp
    from abort_check_other[OF this that(2)] show ?thesis by simp
  qed
  with False l show ?thesis by simp
qed

lemma manual_idle_tick:
  "\<not> move_done (after_service \<lparr>due = False, arrived = ls\<rparr> manual_state)"
  by (simp add: move_done_def after_service_def service_def manual_state_fields
      computeSpeed_const runSpeed_def setSpeed_def setMaxSpeed_def Let_def)

lemma upper_C: "toUpperCase (trim ''C'') \<noteq> ''X''"
  by (simp add: toUpperCase_def trim_def isspace_def toupper_def)

text \<open>
  C1, as the spec states it, fails: the firmware has no \<open>Busy\<close> answer. The request
  \<^verbatim>\<open>C\<close> received during a manual move is consumed and nothing at all is printed.
\<close>

theorem clear_while_moving_unanswered:
  "state manual_state = STATE_MOVING_MANUAL \<and>
   map_option tx (loop decimal_lib \<lparr>due = False, arrived = [''C'']\<rparr> manual_state) =
     Some (tx manual_state)"
proof -
  let ?e = "\<lparr>due = False, arrived = [''C'']\<rparr>"
  have "loop decimal_lib ?e manual_state = Some (abort_check (after_service ?e manual_state))"
    using manual_idle_tick[of "[''C'']"] by (simp add: loop_moving_step manual_state_fields)
  moreover have "rx (after_service ?e manual_state) = ''C'' # []"
    by (simp add: manual_state_fields)
  ultimately show ?thesis
    using upper_C by (simp add: abort_check_other manual_state_fields)
qed

theorem edits_unanswered_while_moving_witness:
  "state manual_state = STATE_MOVING_MANUAL \<and>
   \<not> move_done (after_service \<lparr>due = False, arrived = [''C'']\<rparr> manual_state) \<and>
   rx manual_state @ arrived \<lparr>due = False, arrived = [''C'']\<rparr> = ''C'' # [] \<and>
   toUpperCase (trim ''C'') \<noteq> ''X'' \<and>
   (\<exists>s'. loop decimal_lib \<lparr>due = False, arrived = [''C'']\<rparr> manual_state = Some s' \<and>
      program s' = program manual_state \<and> programCount s' = programCount manual_state \<and>
      tx s' = tx manual_state \<and> rx s' = [] \<and> state s' = STATE_MOVING_MANUAL)"
proof -
  let ?e = "\<lparr>due = False, arrived = [''C'']\<rparr>"
  have m: "state manual_state = STATE_MOVING_MANUAL \<or> state manual_state = STATE_MOVING_PROG"
    by (simp add: manual_state_fields)
  have q: "rx manual_state @ arrived ?e = ''C'' # []"
    by (simp add: manual_state_fields)
  from edits_unanswered_while_moving[OF m, of decimal_lib ?e]
  obtain s' where "loop decimal_lib ?e manual_state = Some s'"
    "program s' = program manual_state" "programCount s' = programCount manual_state"
    "\<not> move_done (after_service ?e manual_state) \<longrightarrow>
       (\<forall>l r. rx manual_state @ arrived ?e = l # r \<longrightarrow> toUpperCase (trim l) \<noteq> ''X'' \<longrightarrow>
          tx s' = tx manual_state \<and> rx s' = r \<and> state s' = state manual_state)"
    by blast
  with manual_idle_tick[of "[''C'']"] q upper_C manual_state_fields(1)
  show ?thesis by (intro conjI exI[of _ s']) auto
qed

section \<open>Properties of the program store\<close>

lemma listing_emit [simp]: "listing (emit ts s) = listing s"
  by (simp add: listing_def)

lemma length_delete_shift [simp]:
  "length (program (delete_shift i s)) = length (program s)"
  by (induction i s rule: delete_shift.induct) (subst delete_shift.simps, simp)

lemma delete_shift_nth:
  "programCount s \<le> length (program s) \<Longrightarrow> j < length (program s) \<Longrightarrow>
   program (delete_shift i s) ! j =
     (if i \<le> j \<and> j + 1 < programCount s then program s ! (j + 1) else program s ! j)"
proof (induction i s rule: delete_shift.induct)
  case (1 i s)
  show ?case
  proof (cases "int i < int (programCount s) - 1")
    case True
    let ?s1 = "s\<lparr>program := (program s)[i := program s ! (i + 1)]\<rparr>"
    have ds: "delete_shift i s = delete_shift (i + 1) ?s1"
      using True by (subst delete_shift.simps) simp
    have "program (delete_shift (i + 1) ?s1) ! j =
        (if i + 1 \<le> j \<and> j + 1 < programCount ?s1 then program ?s1 ! (j + 1)
         else program ?s1 ! j)"
      using "1.IH"[OF True] "1.prems" by simp
    then show ?thesis
      using True "1.prems" by (auto simp: ds nth_list_update)
  next
    case False
    then have "delete_shift i s = s" by (subst delete_shift.simps) simp
    with False show ?thesis by auto
  qed
qed

lemma listing_delete:
  assumes "store_ok s" and "i < programCount s"
  shows "take (programCount s - 1) (program (delete_shift i s)) =
         take i (listing s) @ drop (i + 1) (listing s)"
proof (rule nth_equalityI)
  from assms show "length (take (programCount s - 1) (program (delete_shift i s))) =
      length (take i (listing s) @ drop (i + 1) (listing s))"
    by (auto simp: store_ok_def listing_def)
next
  fix j
  assume "j < length (take (programCount s - 1) (program (delete_shift i s)))"
  with assms have j: "j + 1 < programCount s" "programCount s \<le> length (program s)"
    by (auto simp: store_ok_def)
  then have "program (delete_shift i s) ! j =
      (if i \<le> j then program s ! (j + 1) else program s ! j)"
    by (simp add: delete_shift_nth)
  with j assms(2) show "take (programCount s - 1) (program (delete_shift i s)) ! j =
      (take i (listing s) @ drop (i + 1) (listing s)) ! j"
    by (simp add: listing_def nth_append)
qed

text \<open>
  The delete branch from its range test on, as a function of the 16-bit index \<open>idx\<close>:
  with \<open>idx\<close> in \<open>[0, programCount)\<close> it removes exactly the step at \<open>idx\<close>, moves each
  later step down by one place (the order of the others is kept) and decrements the
  count; with \<open>idx\<close> outside that range, in particular \<open>idx = programCount\<close>, it prints
  the refusal and leaves the store unchanged.
\<close>

lemma editor_delete_on_index:
  assumes "store_ok s"
  shows "(0 \<le> idx \<and> idx < int (programCount s) \<longrightarrow>
            listing (editor_delete idx s) =
              take (nat idx) (listing s) @ drop (nat idx + 1) (listing s) \<and>
            length (listing (editor_delete idx s)) = length (listing s) - 1 \<and>
            programCount (editor_delete idx s) = programCount s - 1 \<and>
            store_ok (editor_delete idx s) \<and>
            tx (editor_delete idx s) = tx s @ println ''Step deleted.'') \<and>
         (idx < 0 \<or> int (programCount s) \<le> idx \<longrightarrow>
            editor_delete idx s = emit (println ''! Invalid step number.'') s \<and>
            program (editor_delete idx s) = program s \<and>
            programCount (editor_delete idx s) = programCount s \<and>
            listing (editor_delete idx s) = listing s)"
proof (intro conjI impI)
  assume "idx < 0 \<or> int (programCount s) \<le> idx"
  then show e: "editor_delete idx s = emit (println ''! Invalid step number.'') s"
    by (auto simp: editor_delete_def)
  show "program (editor_delete idx s) = program s"
    "programCount (editor_delete idx s) = programCount s"
    "listing (editor_delete idx s) = listing s"
    by (simp_all add: e listing_def)
next
  assume a: "0 \<le> idx \<and> idx < int (programCount s)"
  then have i: "nat idx < programCount s" by (simp add: nat_less_iff)
  from assms have c: "programCount s \<le> 5" "length (program s) = 5"
    by (simp_all add: store_ok_def MAX_STEPS_def)
  with i have dec: "(programCount s + 255) mod 256 = programCount s - 1"
    by (simp add: mod_if)
  have e: "editor_delete idx s =
      emit (println ''Step deleted.'')
        ((delete_shift (nat idx) s)\<lparr>programCount := programCount s - 1\<rparr>)"
    using a by (simp add: editor_delete_def Let_def dec)
  show l: "listing (editor_delete idx s) =
      take (nat idx) (listing s) @ drop (nat idx + 1) (listing s)"
    using listing_delete[OF assms i] by (simp add: e listing_def)
  show "length (listing (editor_delete idx s)) = length (listing s) - 1"
    using i c by (simp add: l) (simp add: listing_def)
  show "programCount (editor_delete idx s) = programCount s - 1"
    by (simp add: e)
  show "store_ok (editor_delete idx s)"
    using c by (simp add: e store_ok_def MAX_STEPS_def)
  show "tx (editor_delete idx s) = tx s @ println ''Step deleted.''"
    by (simp add: e)
qed

lemma three_steps_store:
  "store_ok three_steps" "listing three_steps = [scenario_step, braking_step, cruise_step]"
  "programCount three_steps = 3"
  by (simp_all add: three_steps_def store_ok_def MAX_STEPS_def listing_def)

lemma editor_delete_on_index_examples:
  "store_ok three_steps \<and>
   listing three_steps = [scenario_step, braking_step, cruise_step] \<and>
   listing (editor_delete 1 three_steps) = [scenario_step, cruise_step] \<and>
   programCount (editor_delete 1 three_steps) = 2 \<and>
   editor_delete 3 three_steps = emit (println ''! Invalid step number.'') three_steps \<and>
   listing (editor_delete 3 three_steps) = [scenario_step, braking_step, cruise_step]"
  using editor_delete_on_index[OF three_steps_store(1), of 1]
    editor_delete_on_index[OF three_steps_store(1), of 3]
  by (simp add: three_steps_store)

text \<open>
  The index that the delete branch tests is the number typed after \<^verbatim>\<open>D\<close>, minus one,
  converted to the 16-bit \<^verbatim>\<open>int\<close> of the AVR: the typed number 65537 gives the index 0.
\<close>

lemma typed_index_narrows: "to_int16 (65537 - 1) = 0"
  by (simp add: to_int16_def)

lemma typed_65537_index:
  "to_int16 (toInt decimal_lib (drop 2 (trim ''D 65537'')) - 1) = 0"
  by (simp add: to_int16_def decimal_lib_def decimal_def trim_def isspace_def)

text \<open>Two branches of the editor loop, unfolded.\<close>

lemma editor_branch_Q:
  assumes "rx s = l # r" and "trim l \<noteq> []" and "toupper (trim l ! 0) = CHR ''Q''"
  shows "editor L s =
     Some ((emit (println (CHR 0x0A # ''[A] Add step  [D n] Delete step  [Q] Back'') @
                  print ''> '') (printProgram s))\<lparr>rx := r\<rparr>)"
  using assms by (subst editor.simps) (simp add: Let_def)

lemma editor_branch_D:
  assumes "rx s = l # r" and "toupper (trim l ! 0) = CHR ''D''"
    and "\<not> length (trim l) < 3"
  shows "editor L s =
     editor L (editor_delete (to_int16 (toInt L (drop 2 (trim l)) - 1))
       ((emit (println (CHR 0x0A # ''[A] Add step  [D n] Delete step  [Q] Back'') @
               print ''> '') (printProgram s))\<lparr>rx := r\<rparr>))"
  using assms by (subst editor.simps) (auto simp: Let_def)

lemma listing_header [simp]:
  "listing ((emit ts (printProgram s))\<lparr>rx := r\<rparr>) = listing s"
  by (simp add: listing_def)

lemma store_ok_header [simp]:
  "store_ok ((emit ts (printProgram s))\<lparr>rx := r\<rparr>) = store_ok s"
  by (simp add: store_ok_def)

text \<open>
  C7 holds for the index that the branch tests, but not for the delete operation as the
  editor performs it: the index is narrowed to 16 bits before the range test. With three
  stored steps, the line \<^verbatim>\<open>D 65537\<close> asks for the index 65536, which is outside
  \<open>[0, 3)\<close>; the editor does not refuse it: the first step is deleted and two steps are
  left.
\<close>

theorem delete_65537_not_refused:
  "listing typed_delete = [scenario_step, braking_step, cruise_step] \<and>
   map_option listing (editor decimal_lib typed_delete) = Some [braking_step, cruise_step] \<and>
   map_option programCount (editor decimal_lib typed_delete) = Some 2"
proof -
  let ?hdr = "println (CHR 0x0A # ''[A] Add step  [D n] Delete step  [Q] Back'') @ print ''> ''"
  let ?t = "(emit ?hdr (printProgram typed_delete))\<lparr>rx := [''Q'']\<rparr>"
  let ?u = "editor_delete 0 ?t"
  have td: "store_ok typed_delete" "programCount typed_delete = 3"
    "listing typed_delete = [scenario_step, braking_step, cruise_step]"
    "rx typed_delete = [''D 65537'', ''Q'']"
    by (simp_all add: typed_delete_def three_steps_def store_ok_def MAX_STEPS_def listing_def)
  have d: "toupper (trim ''D 65537'' ! 0) = CHR ''D''" "\<not> length (trim ''D 65537'') < 3"
    by (simp_all add: trim_def isspace_def toupper_def)
  have e1: "editor decimal_lib typed_delete = editor decimal_lib ?u"
    using editor_branch_D[OF td(4) d, of decimal_lib] by (simp only: typed_65537_index)
  have t: "store_ok ?t" "programCount ?t = 3" using td by simp_all
  have u: "listing ?u = [braking_step, cruise_step]" "programCount ?u = 2" "rx ?u = [''Q'']"
    using editor_delete_on_index[OF t(1), of 0] t(2) td(3) by simp_all
  have q: "trim ''Q'' \<noteq> []" "toupper (trim ''Q'' ! 0) = CHR ''Q''"
    by (simp_all add: trim_def isspace_def toupper_def)
  have e2: "editor decimal_lib ?u = Some ((emit ?hdr (printProgram ?u))\<lparr>rx := []\<rparr>)"
    using u(3) q by (rule editor_branch_Q)
  show ?thesis
    by (simp only: e1 e2 td(3) option.map listing_header u)
      (simp add: u(2))
qed

text \<open>
  C6: for every store: with the count already at 5 the add branch prints the refusal and
  leaves the stored sequence unchanged; with the count below 5 it appends the step that
  \<^verbatim>\<open>promptStep\<close> returns, so that the listing ends with the added step.
\<close>

theorem editor_add_spec:
  assumes "store_ok s"
  shows "(programCount s = MAX_STEPS \<longrightarrow>
            (\<exists>s'. editor_add L s = Some s' \<and>
               tx s' = tx s @ println ''! Program full (max 5 steps).'' \<and>
               program s' = program s \<and> programCount s' = programCount s \<and>
               listing s' = listing s)) \<and>
         (programCount s < MAX_STEPS \<longrightarrow>
            (\<forall>st q out.
               promptStep L (rx s)
                 (tx s @ print (CHR 0x0A # ''--- New Step '') @
                  [Num (int (programCount s) + 1)] @ println '' ---'') = Some (st, q, out) \<longrightarrow>
               (\<exists>s'. editor_add L s = Some s' \<and>
                  listing s' = listing s @ [st] \<and> last (listing s') = st \<and>
                  programCount s' = programCount s + 1 \<and> store_ok s' \<and>
                  tx s' = out @ println ''Step added.'')))"
proof (intro conjI impI allI)
  assume "programCount s = MAX_STEPS"
  then have "editor_add L s = Some (emit (println ''! Program full (max 5 steps).'') s)"
    by (simp add: editor_add_def)
  then show "\<exists>s'. editor_add L s = Some s' \<and>
               tx s' = tx s @ println ''! Program full (max 5 steps).'' \<and>
               program s' = program s \<and> programCount s' = programCount s \<and>
               listing s' = listing s"
    by simp
next
  fix st q out
  assume lt: "programCount s < MAX_STEPS"
    and p: "promptStep L (rx s)
              (tx s @ print (CHR 0x0A # ''--- New Step '') @
               [Num (int (programCount s) + 1)] @ println '' ---'') = Some (st, q, out)"
  let ?s' = "emit (println ''Step added.'')
      ((emit (print (CHR 0x0A # ''--- New Step '') @ [Num (int (programCount s) + 1)] @
              println '' ---'') s)
        \<lparr>rx := q, tx := out, program := (program s)[programCount s := st],
         programCount := (programCount s + 1) mod 256\<rparr>)"
  from assms lt have c: "programCount s < 5" "length (program s) = 5"
    by (simp_all add: store_ok_def MAX_STEPS_def)
  then have inc: "(programCount s + 1) mod 256 = programCount s + 1"
    "Suc (programCount s) mod 256 = Suc (programCount s)" by simp_all
  have e: "editor_add L s = Some ?s'"
    using lt p by (simp add: editor_add_def Let_def)
  have l: "listing ?s' = listing s @ [st]"
    using c by (simp add: listing_def inc take_Suc_conv_app_nth)
  have "last (listing ?s') = st" unfolding l by simp
  moreover have "programCount ?s' = programCount s + 1" by (simp add: inc)
  moreover have "store_ok ?s'" using c by (simp add: store_ok_def MAX_STEPS_def inc)
  moreover have "tx ?s' = out @ println ''Step added.''" by simp
  ultimately show "\<exists>s'. editor_add L s = Some s' \<and>
                  listing s' = listing s @ [st] \<and> last (listing s') = st \<and>
                  programCount s' = programCount s + 1 \<and> store_ok s' \<and>
                  tx s' = out @ println ''Step added.''"
    using e l by (intro exI[of _ ?s']) simp
qed

lemma full_store_ok: "store_ok full_store" "programCount full_store = MAX_STEPS"
  by (simp_all add: full_store_def three_steps_def store_ok_def MAX_STEPS_def)

lemma adding_state_ok:
  "store_ok adding_state" "programCount adding_state < MAX_STEPS"
  "rx adding_state = [''F'', ''2048'', ''300'', ''500'', ''0'']"
  "listing adding_state = [scenario_step, braking_step, cruise_step]"
  by (simp_all add: adding_state_def three_steps_def store_ok_def MAX_STEPS_def listing_def)

theorem editor_add_spec_witness:
  "store_ok full_store \<and> programCount full_store = MAX_STEPS \<and>
   (\<exists>s'. editor_add decimal_lib full_store = Some s' \<and>
      tx s' = tx full_store @ println ''! Program full (max 5 steps).'' \<and>
      listing s' = listing full_store) \<and>
   store_ok adding_state \<and> programCount adding_state < MAX_STEPS \<and>
   (\<exists>s'. editor_add decimal_lib adding_state = Some s' \<and>
      listing s' = [scenario_step, braking_step, cruise_step, cruise_step] \<and>
      last (listing s') = cruise_step)"
proof -
  from editor_add_spec[OF full_store_ok(1), of decimal_lib] full_store_ok(2)
  have a: "\<exists>s'. editor_add decimal_lib full_store = Some s' \<and>
      tx s' = tx full_store @ println ''! Program full (max 5 steps).'' \<and>
      listing s' = listing full_store"
    by blast
  have "promptStep decimal_lib (rx adding_state)
          (tx adding_state @ print (CHR 0x0A # ''--- New Step '') @
           [Num (int (programCount adding_state) + 1)] @ println '' ---'') \<noteq> None"
    by (simp add: adding_state_ok prompt_cruise)
  then obtain q out where "promptStep decimal_lib (rx adding_state)
          (tx adding_state @ print (CHR 0x0A # ''--- New Step '') @
           [Num (int (programCount adding_state) + 1)] @ println '' ---'') =
          Some (cruise_step, q, out)"
    by (simp add: adding_state_ok prompt_cruise)
  with editor_add_spec[OF adding_state_ok(1), of decimal_lib] adding_state_ok(2)
  have b: "\<exists>s'. editor_add decimal_lib adding_state = Some s' \<and>
      listing s' = listing adding_state @ [cruise_step] \<and> last (listing s') = cruise_step"
    by blast
  from a b full_store_ok adding_state_ok show ?thesis by simp
qed

section \<open>Running a stored program\<close>

lemmas msg_defs = msg_aborted_def msg_complete_def msg_starting_def

lemma count_main_menu [simp]:
  "count_list (main_menu n) msg_aborted = 0"
  "count_list (main_menu n) msg_complete = 0"
  "count_list (main_menu n) msg_starting = 0"
  by (simp_all add: main_menu_def print_def println_def printDivider_def msg_defs)

lemma finish_move_next:
  assumes "state s = STATE_MOVING_PROG" and "progStepIndex s + 1 < programCount s"
    and "programCount s \<le> MAX_STEPS"
  shows "finish_move s =
     startStep (program s ! (progStepIndex s + 1))
       ((emit (print (CHR 0x0A # ''[STEP '') @ [Num (int (progStepIndex s + 1) + 1)] @
               print ''/'' @ [Num (int (programCount s))] @ println ''] Starting...'')
          (s\<lparr>g_moving := False, stepper := disableOutputs (stepper s),
              progStepIndex := progStepIndex s + 1\<rparr>))
        \<lparr>stepper := enableOutputs (disableOutputs (stepper s))\<rparr>)"
proof -
  from assms(2,3) have "(progStepIndex s + 1) mod 256 = progStepIndex s + 1"
    "Suc (progStepIndex s) mod 256 = Suc (progStepIndex s)"
    by (simp_all add: MAX_STEPS_def)
  with assms(1,2) show ?thesis by (simp add: finish_move_def Let_def)
qed

lemma finish_move_last:
  assumes "state s = STATE_MOVING_PROG" and "progStepIndex s + 1 = programCount s"
    and "programCount s \<le> MAX_STEPS"
  shows "finish_move s =
     printMainMenu
       ((emit (println (CHR 0x0A # ''[DONE] Program complete.''))
          (s\<lparr>g_moving := False, stepper := disableOutputs (stepper s),
              progStepIndex := programCount s\<rparr>))\<lparr>state := STATE_IDLE\<rparr>)"
proof -
  from assms(2,3) have "(progStepIndex s + 1) mod 256 = programCount s"
    "Suc (progStepIndex s) mod 256 = programCount s"
    by (simp_all add: MAX_STEPS_def)
  with assms(1,2) show ?thesis by (simp add: finish_move_def Let_def)
qed

text \<open>What one call does to a running program: the four cases.\<close>

lemma prog_tick:
  assumes "store_ok s" and "state s = STATE_MOVING_PROG"
    and "progStepIndex s < programCount s"
  obtains
    (wait) s1 where "loop L e s = Some s1" "\<not> move_done (after_service e s)"
      "state s1 = STATE_MOVING_PROG" "progStepIndex s1 = progStepIndex s"
      "program s1 = program s" "programCount s1 = programCount s" "tx s1 = tx s"
  | (abort) s1 where "loop L e s = Some s1" "\<not> move_done (after_service e s)"
      "state s1 = STATE_IDLE"
      "tx s1 = tx s @ println (CHR 0x0A # ''[ABORTED] Motor stopped.'') @
               main_menu (programCount s)"
  | (advance) s1 where "loop L e s = Some s1" "move_done (after_service e s)"
      "progStepIndex s + 1 < programCount s"
      "state s1 = STATE_MOVING_PROG" "progStepIndex s1 = progStepIndex s + 1"
      "program s1 = program s" "programCount s1 = programCount s"
      "tx s1 = tx s @ print (CHR 0x0A # ''[STEP '') @ [Num (int (progStepIndex s + 1) + 1)] @
               print ''/'' @ [Num (int (programCount s))] @ println ''] Starting...''"
  | (complete) s1 where "loop L e s = Some s1" "move_done (after_service e s)"
      "progStepIndex s + 1 = programCount s"
      "state s1 = STATE_IDLE"
      "tx s1 = tx s @ println (CHR 0x0A # ''[DONE] Program complete.'') @
               main_menu (programCount s)"
proof -
  let ?t = "after_service e s"
  have t: "state ?t = STATE_MOVING_PROG" "progStepIndex ?t = progStepIndex s"
    "programCount ?t = programCount s" "program ?t = program s" "tx ?t = tx s"
    using assms(2) by simp_all
  have c: "programCount ?t \<le> MAX_STEPS" using assms(1) by (simp add: store_ok_def)
  have l: "loop L e s = Some (if move_done ?t then finish_move ?t else abort_check ?t)"
    using assms(2) by (simp add: loop_moving_step)
  show ?thesis
  proof (cases "move_done ?t")
    case d: True
    show ?thesis
    proof (cases "progStepIndex s + 1 < programCount s")
      case True
      then have n: "progStepIndex ?t + 1 < programCount ?t" by simp
      note eq = finish_move_next[OF t(1) n c]
      show ?thesis
        by (rule advance[of "finish_move ?t"]) (use l d True t in \<open>simp_all add: eq\<close>)
    next
      case False
      with assms(3) have last: "progStepIndex s + 1 = programCount s" by simp
      then have n: "progStepIndex ?t + 1 = programCount ?t" by simp
      note eq = finish_move_last[OF t(1) n c]
      show ?thesis
        by (rule complete[of "finish_move ?t"]) (use l d last t in \<open>simp_all add: eq\<close>)
    qed
  next
    case nd: False
    show ?thesis
    proof (cases "rx ?t")
      case Nil
      then have eq: "abort_check ?t = ?t" by (rule abort_check_none)
      show ?thesis
        by (rule wait[of ?t]) (use l nd t in \<open>simp_all add: eq\<close>)
    next
      case (Cons ln r)
      show ?thesis
      proof (cases "toUpperCase (trim ln) = ''X''")
        case True
        note eq = abort_check_X[OF Cons True]
        show ?thesis
          by (rule abort[of "abort_check ?t"]) (use l nd t in \<open>simp_all add: eq\<close>)
      next
        case False
        note eq = abort_check_other[OF Cons False]
        show ?thesis
          by (rule wait[of "abort_check ?t"]) (use l nd t in \<open>simp_all add: eq\<close>)
      qed
    qed
  qed
qed

subsection \<open>A whole run\<close>

lemma done_ticks_Cons:
  "loop L e s = Some s1 \<Longrightarrow>
   done_ticks L (e # es) s =
     (if state s \<noteq> STATE_IDLE \<and> move_done (after_service e s) then 1 else 0) +
     done_ticks L es s1"
  by simp

lemma stays_moving_end:
  assumes "stays (\<lambda>x. x = STATE_MOVING_PROG) L es s" and "state s = STATE_IDLE"
  shows "es = []"
  using assms by (cases es) simp_all

lemma prog_run:
  assumes "store_ok s" and "state s = STATE_MOVING_PROG"
    and "progStepIndex s < programCount s"
    and "stays (\<lambda>x. x = STATE_MOVING_PROG) L es s" and "run L es s = Some s'"
    and "state s' = STATE_IDLE"
    and "count_list (tx s') msg_aborted = count_list (tx s) msg_aborted"
  shows "done_ticks L es s = programCount s - progStepIndex s \<and>
         count_list (tx s') msg_complete = count_list (tx s) msg_complete + 1 \<and>
         count_list (tx s') msg_starting =
           count_list (tx s) msg_starting + (programCount s - progStepIndex s - 1) \<and>
         (\<exists>pre. tx s' = pre @ println (CHR 0x0A # ''[DONE] Program complete.'') @
                          main_menu (programCount s))"
  using assms
proof (induction es arbitrary: s)
  case Nil
  then show ?case by simp
next
  case (Cons e es)
  from Cons.prems(4) obtain s1 where l: "loop L e s = Some s1"
    and st: "stays (\<lambda>x. x = STATE_MOVING_PROG) L es s1"
    by (rule stays_Cons)
  from Cons.prems(5) l have r: "run L es s1 = Some s'" by (rule run_Cons)
  note dt = done_ticks_Cons[OF l, of es]
  from Cons.prems(1,2,3) show ?case
  proof (cases rule: prog_tick[where L = L and e = e])
    case (wait t)
    with l have t: "t = s1" by simp
    have ok: "store_ok s1" using Cons.prems(1) wait(5,6) by (simp add: store_ok_def t)
    have "done_ticks L es s1 = programCount s1 - progStepIndex s1 \<and>
         count_list (tx s') msg_complete = count_list (tx s1) msg_complete + 1 \<and>
         count_list (tx s') msg_starting =
           count_list (tx s1) msg_starting + (programCount s1 - progStepIndex s1 - 1) \<and>
         (\<exists>pre. tx s' = pre @ println (CHR 0x0A # ''[DONE] Program complete.'') @
                          main_menu (programCount s1))"
      using ok wait(3,4,6,7) Cons.prems(3,6,7) st r
      by (intro Cons.IH) (simp_all add: t)
    with wait(2,4,6,7) show ?thesis by (simp add: l t)
  next
    case (abort t)
    with l have t: "t = s1" by simp
    from st abort(3) have "es = []" by (intro stays_moving_end[of L es s1]) (simp_all add: t)
    with r have "s' = s1" by simp
    with Cons.prems(7) abort(4) show ?thesis
      by (simp add: t println_def msg_defs)
  next
    case (advance t)
    with l have t: "t = s1" by simp
    have ok: "store_ok s1" using Cons.prems(1) advance(6,7) by (simp add: store_ok_def t)
    have ab: "count_list (tx s') msg_aborted = count_list (tx s1) msg_aborted"
      using Cons.prems(7) advance(8) by (simp add: t print_def println_def msg_defs)
    have "done_ticks L es s1 = programCount s1 - progStepIndex s1 \<and>
         count_list (tx s') msg_complete = count_list (tx s1) msg_complete + 1 \<and>
         count_list (tx s') msg_starting =
           count_list (tx s1) msg_starting + (programCount s1 - progStepIndex s1 - 1) \<and>
         (\<exists>pre. tx s' = pre @ println (CHR 0x0A # ''[DONE] Program complete.'') @
                          main_menu (programCount s1))"
      using ok advance(3,4,5,7) Cons.prems(6) st r ab
      by (intro Cons.IH) (simp_all add: t)
    with advance(2,3,5,7,8) Cons.prems(2) show ?thesis
      by (simp add: l t print_def println_def msg_defs) arith
  next
    case (complete t)
    with l have t: "t = s1" by simp
    from st complete(4) have "es = []"
      by (intro stays_moving_end[of L es s1]) (simp_all add: t)
    with r have s': "s' = s1" by simp
    have "tx s' = tx s @ println (CHR 0x0A # ''[DONE] Program complete.'') @
                          main_menu (programCount s)"
      using complete(5) by (simp add: s' t)
    then have "\<exists>pre. tx s' = pre @ println (CHR 0x0A # ''[DONE] Program complete.'') @
                          main_menu (programCount s)"
      by blast
    moreover have "done_ticks L (e # es) s = programCount s - progStepIndex s"
      using complete(2,3) Cons.prems(2) \<open>es = []\<close> by (simp add: l)
    moreover have "count_list (tx s') msg_complete = count_list (tx s) msg_complete + 1"
      "count_list (tx s') msg_starting =
           count_list (tx s) msg_starting + (programCount s - progStepIndex s - 1)"
      using complete(3,5)
      by (simp_all add: s' t println_def msg_defs count_main_menu[unfolded msg_defs])
    ultimately show ?thesis by simp
  qed
qed

lemma case_R_start:
  assumes "programCount t \<noteq> 0"
  shows "state (case_R t) = STATE_MOVING_PROG \<and> progStepIndex (case_R t) = 0 \<and>
         program (case_R t) = program t \<and> programCount (case_R t) = programCount t \<and>
         outputs (stepper (case_R t)) \<and> g_moving (case_R t) \<and>
         currentPosition (stepper (case_R t)) = 0 \<and>
         g_target_dist (case_R t) = distance (program t ! 0) \<and>
         g_start_speed (case_R t) = max 1 (start_speed (program t ! 0)) \<and>
         g_end_speed (case_R t) = max 1 (end_speed (program t ! 0)) \<and>
         g_accel (case_R t) = accel (program t ! 0) \<and>
         g_fwd (case_R t) = forward (program t ! 0) \<and>
         tx (case_R t) =
           tx t @ print (CHR 0x0A # ''--- Running Program ('') @
           [Num (int (programCount t))] @
           println '' step(s)) --- type X + Enter to abort ---'' @
           print ''[STEP 1/'' @ [Num (int (programCount t))] @ println ''] Starting...''"
  using assms by (simp add: case_R_def Let_def startStep_globals enableOutputs_def)

text \<open>
  C8: in \<^verbatim>\<open>STATE_MOVING_PROG\<close> at step \<open>i\<close> of \<open>N\<close> stored steps, on a call that finds the
  move complete: if \<open>i + 1 < N\<close> the move for \<open>program[i + 1]\<close> is started, the outputs are
  enabled again, the step message is printed and the session stays in
  \<^verbatim>\<open>STATE_MOVING_PROG\<close> at step \<open>i + 1\<close>; if \<open>i + 1 = N\<close> the outputs are disabled, the
  completion message is printed and the session returns to \<^verbatim>\<open>STATE_IDLE\<close>. Hence a run
  that is not aborted and ends in \<^verbatim>\<open>STATE_IDLE\<close> has exactly \<open>N - i\<close> calls that find a
  move complete (\<open>N\<close> from the command \<^verbatim>\<open>R\<close>, which starts at step 0), prints the
  completion message once, and ends with it and the menu.
\<close>

theorem program_run_completes:
  assumes "store_ok s" and "state s = STATE_MOVING_PROG"
    and "progStepIndex s < programCount s"
  shows
    "(move_done (after_service e s) \<and> progStepIndex s + 1 < programCount s \<longrightarrow>
        (\<exists>s'. loop L e s = Some s' \<and>
           state s' = STATE_MOVING_PROG \<and> progStepIndex s' = progStepIndex s + 1 \<and>
           program s' = program s \<and> programCount s' = programCount s \<and>
           outputs (stepper s') \<and> g_moving s' \<and> currentPosition (stepper s') = 0 \<and>
           g_target_dist s' = distance (listing s ! (progStepIndex s + 1)) \<and>
           g_start_speed s' = max 1 (start_speed (listing s ! (progStepIndex s + 1))) \<and>
           g_end_speed s' = max 1 (end_speed (listing s ! (progStepIndex s + 1))) \<and>
           g_accel s' = accel (listing s ! (progStepIndex s + 1)) \<and>
           g_fwd s' = forward (listing s ! (progStepIndex s + 1)) \<and>
           tx s' = tx s @ print (CHR 0x0A # ''[STEP '') @
                   [Num (int (progStepIndex s + 1) + 1)] @ print ''/'' @
                   [Num (int (programCount s))] @ println ''] Starting...'')) \<and>
     (move_done (after_service e s) \<and> progStepIndex s + 1 = programCount s \<longrightarrow>
        (\<exists>s'. loop L e s = Some s' \<and>
           state s' = STATE_IDLE \<and> \<not> outputs (stepper s') \<and> \<not> g_moving s' \<and>
           tx s' = tx s @ println (CHR 0x0A # ''[DONE] Program complete.'') @
                   main_menu (programCount s))) \<and>
     (\<forall>es s'. stays (\<lambda>x. x = STATE_MOVING_PROG) L es s \<longrightarrow> run L es s = Some s' \<longrightarrow>
        state s' = STATE_IDLE \<longrightarrow>
        count_list (tx s') msg_aborted = count_list (tx s) msg_aborted \<longrightarrow>
          done_ticks L es s = programCount s - progStepIndex s \<and>
          count_list (tx s') msg_complete = count_list (tx s) msg_complete + 1 \<and>
          count_list (tx s') msg_starting =
            count_list (tx s) msg_starting + (programCount s - progStepIndex s - 1) \<and>
          (\<exists>pre. tx s' = pre @ println (CHR 0x0A # ''[DONE] Program complete.'') @
                           main_menu (programCount s))) \<and>
     (\<forall>t. programCount t \<noteq> 0 \<longrightarrow>
        state (case_R t) = STATE_MOVING_PROG \<and> progStepIndex (case_R t) = 0 \<and>
        program (case_R t) = program t \<and> programCount (case_R t) = programCount t)"
proof (intro conjI impI allI)
  let ?t = "after_service e s"
  have t: "state ?t = STATE_MOVING_PROG" "progStepIndex ?t = progStepIndex s"
    "programCount ?t = programCount s" "program ?t = program s" "tx ?t = tx s"
    using assms(2) by simp_all
  have c: "programCount ?t \<le> MAX_STEPS" using assms(1) by (simp add: store_ok_def)
  {
    assume a: "move_done ?t \<and> progStepIndex s + 1 < programCount s"
    then have l: "loop L e s = Some (finish_move ?t)"
      using assms(2) by (simp add: loop_moving_step)
    from a have n: "progStepIndex ?t + 1 < programCount ?t" by simp
    note eq = finish_move_next[OF t(1) n c]
    have nth: "listing s ! (progStepIndex s + 1) = program s ! (progStepIndex s + 1)"
      using a by (simp add: listing_def)
    show "\<exists>s'. loop L e s = Some s' \<and>
           state s' = STATE_MOVING_PROG \<and> progStepIndex s' = progStepIndex s + 1 \<and>
           program s' = program s \<and> programCount s' = programCount s \<and>
           outputs (stepper s') \<and> g_moving s' \<and> currentPosition (stepper s') = 0 \<and>
           g_target_dist s' = distance (listing s ! (progStepIndex s + 1)) \<and>
           g_start_speed s' = max 1 (start_speed (listing s ! (progStepIndex s + 1))) \<and>
           g_end_speed s' = max 1 (end_speed (listing s ! (progStepIndex s + 1))) \<and>
           g_accel s' = accel (listing s ! (progStepIndex s + 1)) \<and>
           g_fwd s' = forward (listing s ! (progStepIndex s + 1)) \<and>
           tx s' = tx s @ print (CHR 0x0A # ''[STEP '') @
                   [Num (int (progStepIndex s + 1) + 1)] @ print ''/'' @
                   [Num (int (programCount s))] @ println ''] Starting...''"
      by (rule exI[of _ "finish_move ?t"])
        (simp add: l eq t nth[simplified] assms(2) startStep_globals enableOutputs_def)
  }
  {
    assume a: "move_done ?t \<and> progStepIndex s + 1 = programCount s"
    then have l: "loop L e s = Some (finish_move ?t)"
      using assms(2) by (simp add: loop_moving_step)
    from a have n: "progStepIndex ?t + 1 = programCount ?t" by simp
    note eq = finish_move_last[OF t(1) n c]
    show "\<exists>s'. loop L e s = Some s' \<and>
           state s' = STATE_IDLE \<and> \<not> outputs (stepper s') \<and> \<not> g_moving s' \<and>
           tx s' = tx s @ println (CHR 0x0A # ''[DONE] Program complete.'') @
                   main_menu (programCount s)"
      by (rule exI[of _ "finish_move ?t"]) (simp add: l eq t disableOutputs_def)
  }
  {
    fix es and s' :: sys
    assume "stays (\<lambda>x. x = STATE_MOVING_PROG) L es s" and "run L es s = Some s'"
      and "state s' = STATE_IDLE"
      and "count_list (tx s') msg_aborted = count_list (tx s) msg_aborted"
    from prog_run[OF assms this]
    show "done_ticks L es s = programCount s - progStepIndex s"
      and "count_list (tx s') msg_complete = count_list (tx s) msg_complete + 1"
      and "count_list (tx s') msg_starting =
            count_list (tx s) msg_starting + (programCount s - progStepIndex s - 1)"
      and "\<exists>pre. tx s' = pre @ println (CHR 0x0A # ''[DONE] Program complete.'') @
                           main_menu (programCount s)"
      by simp_all
  }
  {
    fix t :: sys
    assume "programCount t \<noteq> 0"
    from case_R_start[OF this]
    show "state (case_R t) = STATE_MOVING_PROG" and "progStepIndex (case_R t) = 0"
      and "program (case_R t) = program t" and "programCount (case_R t) = programCount t"
      by simp_all
  }
qed

lemma two_steps_fields:
  "store_ok two_steps" "programCount two_steps = 2"
  "program two_steps = [unit_step, unit_step, capped_step, capped_step, capped_step]"
  by (simp_all add: two_steps_def store_ok_def MAX_STEPS_def)

lemma running_fields:
  "store_ok running" "state running = STATE_MOVING_PROG" "progStepIndex running = 0"
  "programCount running = 2" "g_moving running" "currentPosition (stepper running) = 0"
  "g_accel running = 0" "g_start_speed running = 10" "g_target_dist running = 1"
  "listing running = [unit_step, unit_step]"
  using case_R_start[of two_steps]
  by (simp_all add: running_def two_steps_fields store_ok_def listing_def unit_step_def
      MAX_STEPS_def)

lemma unit_tick:
  assumes "g_moving s" and "currentPosition (stepper s) = 0" and "g_accel s = 0"
    and "g_start_speed s = 10" and "g_target_dist s = 1"
  shows "move_done (after_service due_tick s)"
  using assms
  by (simp add: after_service_def service_def computeSpeed_const runSpeed_def setSpeed_def
      setMaxSpeed_def move_done_def Let_def due_tick_def)

theorem program_run_completes_witness:
  "store_ok running \<and> state running = STATE_MOVING_PROG \<and>
   progStepIndex running = 0 \<and> programCount running = 2 \<and>
   (\<exists>s'. run decimal_lib [due_tick, due_tick] running = Some s' \<and>
      state s' = STATE_IDLE \<and> \<not> outputs (stepper s') \<and>
      done_ticks decimal_lib [due_tick, due_tick] running = 2 \<and>
      count_list (tx s') msg_complete = count_list (tx running) msg_complete + 1 \<and>
      count_list (tx s') msg_starting = count_list (tx running) msg_starting + 1)"
proof -
  note r = running_fields
  have i0: "progStepIndex running < programCount running" by (simp add: r)
  have d0: "move_done (after_service due_tick running) \<and>
      progStepIndex running + 1 < programCount running"
    using unit_tick[OF r(5,6,7,8,9)] by (simp add: r)
  from program_run_completes[OF r(1,2) i0, of due_tick decimal_lib] d0
  obtain s1 where s1: "loop decimal_lib due_tick running = Some s1"
    "state s1 = STATE_MOVING_PROG" "progStepIndex s1 = progStepIndex running + 1"
    "program s1 = program running" "programCount s1 = programCount running"
    "g_moving s1" "currentPosition (stepper s1) = 0"
    "g_target_dist s1 = distance (listing running ! (progStepIndex running + 1))"
    "g_start_speed s1 = max 1 (start_speed (listing running ! (progStepIndex running + 1)))"
    "g_accel s1 = accel (listing running ! (progStepIndex running + 1))"
    "tx s1 = tx running @ print (CHR 0x0A # ''[STEP '') @
             [Num (int (progStepIndex running + 1) + 1)] @ print ''/'' @
             [Num (int (programCount running))] @ println ''] Starting...''"
    by blast
  have ok1: "store_ok s1" using r(1) s1(4,5) by (simp add: store_ok_def)
  have i1: "progStepIndex s1 < programCount s1" by (simp add: s1 r)
  have d1: "move_done (after_service due_tick s1) \<and>
      progStepIndex s1 + 1 = programCount s1"
    using unit_tick[of s1] by (simp add: s1 r unit_step_def)
  from program_run_completes[OF ok1 s1(2) i1, of due_tick decimal_lib] d1
  obtain s2 where s2: "loop decimal_lib due_tick s1 = Some s2" "state s2 = STATE_IDLE"
    "\<not> outputs (stepper s2)"
    "tx s2 = tx s1 @ println (CHR 0x0A # ''[DONE] Program complete.'') @
             main_menu (programCount s1)"
    by blast
  have run: "run decimal_lib [due_tick, due_tick] running = Some s2"
    by (simp add: s1(1) s2(1))
  have st: "stays (\<lambda>x. x = STATE_MOVING_PROG) decimal_lib [due_tick, due_tick] running"
    by (simp add: s1(1,2) s2(1) r(2))
  have ab: "count_list (tx s2) msg_aborted = count_list (tx running) msg_aborted"
    by (simp add: s2(4) s1(11)) (simp add: print_def println_def msg_defs)
  from program_run_completes[OF r(1,2) i0, of due_tick decimal_lib] st run s2(2) ab
  have "done_ticks decimal_lib [due_tick, due_tick] running =
          programCount running - progStepIndex running \<and>
        count_list (tx s2) msg_complete = count_list (tx running) msg_complete + 1 \<and>
        count_list (tx s2) msg_starting =
          count_list (tx running) msg_starting +
          (programCount running - progStepIndex running - 1)"
    by blast
  with run s2(2,3) r show ?thesis by simp
qed

section \<open>Invariants of the reachable states\<close>

lemma promptFloat_range:
  "promptFloat L msg lo hi q out = Some (v, q', out') \<Longrightarrow> lo \<le> v \<and> v \<le> hi"
proof (induction L msg lo hi q out rule: promptFloat.induct)
  case (1 L msg lo hi q out)
  from "1.prems" obtain str q1 out1 where
    pl: "promptLine msg q out = Some (str, q1, out1)"
    by (subst (asm) promptFloat.simps) (auto split: option.splits)
  show ?case
  proof (cases "lo \<le> toFloat L str \<and> toFloat L str \<le> hi")
    case True
    with "1.prems" pl have "v = toFloat L str"
      by (subst (asm) promptFloat.simps) (simp add: Let_def)
    with True show ?thesis by simp
  next
    case False
    with "1.prems" pl have
      "promptFloat L msg lo hi q1
         (out1 @ print ''  ! Out of range ('' @ [Flo lo] @ print '' - '' @
          [Flo hi] @ println ''), try again.'') = Some (v, q', out')"
      by (subst (asm) promptFloat.simps) (simp add: Let_def)
    with "1.IH"[OF pl refl refl refl False] show ?thesis by simp
  qed
qed

lemma promptLong_range:
  "promptLong L msg lo hi q out = Some (v, q', out') \<Longrightarrow> lo \<le> v \<and> v \<le> hi"
proof (induction L msg lo hi q out rule: promptLong.induct)
  case (1 L msg lo hi q out)
  from "1.prems" obtain str q1 out1 where
    pl: "promptLine msg q out = Some (str, q1, out1)"
    by (subst (asm) promptLong.simps) (auto split: option.splits)
  show ?case
  proof (cases "lo \<le> toInt L str \<and> toInt L str \<le> hi")
    case True
    with "1.prems" pl have "v = toInt L str"
      by (subst (asm) promptLong.simps) (simp add: Let_def)
    with True show ?thesis by simp
  next
    case False
    with "1.prems" pl have
      "promptLong L msg lo hi q1
         (out1 @ print ''  ! Out of range ('' @ [Num lo] @ print '' - '' @
          [Num hi] @ println ''), try again.'') = Some (v, q', out')"
      by (subst (asm) promptLong.simps) (simp add: Let_def)
    with "1.IH"[OF pl refl refl refl False] show ?thesis by simp
  qed
qed

text \<open>Every step that \<^verbatim>\<open>promptStep\<close> returns is in the ranges of \<open>valid_step\<close>.\<close>

lemma promptStep_valid:
  assumes "promptStep L q out = Some (st, q', out')"
  shows "valid_step st"
proof -
  from assms obtain f q1 out1 d q2 out2 v0 q3 out3 v1 q4 out4 a where
    p: "promptLong L ''  Distance  (steps, 1-999999) > '' 1 999999 q1 out1 = Some (d, q2, out2)"
    "promptFloat L ''  Start spd (steps/s, 1-1000) > '' 1 ABS_MAX_SPEED q2 out2
       = Some (v0, q3, out3)"
    "promptFloat L ''  End spd   (steps/s, 1-1000) > '' 1 ABS_MAX_SPEED q3 out3
       = Some (v1, q4, out4)"
    "promptFloat L ''  Accel     (steps/s2, -1000 to 1000) > ''
       (- ABS_MAX_ACCEL) ABS_MAX_ACCEL q4 out4 = Some (a, q', out')"
    and st: "st = \<lparr>forward = f, distance = d, start_speed = v0, end_speed = v1, accel = a\<rparr>"
    by (auto simp: promptStep_def split: option.splits)
  from promptLong_range[OF p(1)] promptFloat_range[OF p(2)] promptFloat_range[OF p(3)]
    promptFloat_range[OF p(4)]
  show ?thesis by (simp add: st valid_step_def)
qed

lemma editor_add_store:
  assumes "store_ok s" and "list_all valid_step (listing s)" and "editor_add L s = Some s'"
  shows "store_ok s' \<and> list_all valid_step (listing s')"
proof (cases "programCount s \<ge> MAX_STEPS")
  case True
  with assms show ?thesis by (auto simp: editor_add_def store_ok_def)
next
  case False
  with assms(1) have c: "programCount s < 5" "length (program s) = 5"
    by (simp_all add: store_ok_def MAX_STEPS_def)
  then have inc: "Suc (programCount s) mod 256 = Suc (programCount s)" by simp
  from assms(3) False obtain st q out where
    p: "promptStep L (rx s)
          (tx s @ print (CHR 0x0A # ''--- New Step '') @
           [Num (int (programCount s) + 1)] @ println '' ---'') = Some (st, q, out)"
    and s': "program s' = (program s)[programCount s := st]"
      "programCount s' = Suc (programCount s)"
    by (auto simp: editor_add_def Let_def inc split: option.splits)
  have "listing s' = listing s @ [st]"
    using c by (simp add: listing_def s' take_Suc_conv_app_nth)
  with assms(2) promptStep_valid[OF p] c show ?thesis
    by (simp add: store_ok_def MAX_STEPS_def s')
qed

lemma editor_delete_store:
  assumes "store_ok s" and "list_all valid_step (listing s)"
  shows "store_ok (editor_delete idx s) \<and> list_all valid_step (listing (editor_delete idx s))"
proof (cases "idx < 0 \<or> int (programCount s) \<le> idx")
  case True
  then have "editor_delete idx s = emit (println ''! Invalid step number.'') s"
    by (auto simp: editor_delete_def)
  with assms show ?thesis by (simp add: store_ok_def)
next
  case False
  then have i: "nat idx < programCount s" by (simp add: nat_less_iff)
  from assms(1) have c: "programCount s \<le> 5" "length (program s) = 5"
    by (simp_all add: store_ok_def MAX_STEPS_def)
  with i have dec: "(programCount s + 255) mod 256 = programCount s - 1"
    by (simp add: mod_if)
  have e: "editor_delete idx s =
      emit (println ''Step deleted.'')
        ((delete_shift (nat idx) s)\<lparr>programCount := programCount s - 1\<rparr>)"
    using False by (simp add: editor_delete_def Let_def dec)
  have l: "listing (editor_delete idx s) =
      take (nat idx) (listing s) @ drop (nat idx + 1) (listing s)"
    using listing_delete[OF assms(1) i] by (simp add: e listing_def)
  have "set (listing (editor_delete idx s)) \<subseteq> set (listing s)"
    unfolding l using set_take_subset[of "nat idx" "listing s"]
      set_drop_subset[of "nat idx + 1" "listing s"] by auto
  with assms(2) have "list_all valid_step (listing (editor_delete idx s))"
    by (auto simp: list_all_iff)
  moreover have "store_ok (editor_delete idx s)"
    using c by (simp add: e store_ok_def MAX_STEPS_def)
  ultimately show ?thesis by simp
qed

lemma editor_store:
  assumes "store_ok s" and "list_all valid_step (listing s)" and "editor L s = Some s'"
  shows "store_ok s' \<and> list_all valid_step (listing s')"
proof -
  let ?Q = "\<lambda>t. store_ok t \<and> list_all valid_step (listing t)"
  have "?Q s'"
  proof (rule editor_invariant[where Q = ?Q and L = L and s = s])
    show "?Q (emit ts t)" if "?Q t" for ts t
      using that by (simp add: store_ok_def)
    show "?Q (printProgram t)" if "?Q t" for t
      using that by (simp add: store_ok_def listing_def)
    show "?Q (t\<lparr>rx := r\<rparr>)" if "?Q t" for r t
      using that by (simp add: store_ok_def listing_def)
    show "?Q t'" if "?Q t" and "editor_add M t = Some t'" for M t t'
      using editor_add_store that by blast
    show "?Q (editor_delete idx t)" if "?Q t" for idx t
      using editor_delete_store that by blast
    show "?Q s" using assms by simp
    show "editor L s = Some s'" by (rule assms)
  qed
  then show ?thesis .
qed

lemma store_inv_setup: "store_inv setup_sketch"
  by (simp add: store_inv_def store_ok_def listing_def setup_sketch_def globals0_def
      MAX_STEPS_def)

lemma case_P_store:
  assumes "store_ok s" and "list_all valid_step (listing s)" and "case_P L s = Some s'"
  shows "store_ok s' \<and> list_all valid_step (listing s') \<and> state s' = state s"
proof -
  from assms(3) obtain s2 where
    e: "editor L (emit (println (CHR 0x0A # ''--- Program Editor ---'')) s) = Some s2"
    and s': "s' = printMainMenu s2"
    by (auto simp: case_P_def split: option.splits)
  have "store_ok s2 \<and> list_all valid_step (listing s2)"
    using assms(1,2) by (intro editor_store[OF _ _ e]) (simp_all add: store_ok_def)
  moreover have "state s2 = state s" using editor_fields[OF e] by simp
  ultimately show ?thesis by (simp add: s' store_ok_def listing_def)
qed

lemma idle_command_store:
  assumes "store_inv s" and "state s = STATE_IDLE" and "idle_command L s = Some s'"
  shows "store_inv s'"
proof (cases "rx s")
  case Nil
  with assms show ?thesis by (simp add: idle_command_def)
next
  case (Cons l r)
  let ?s1 = "s\<lparr>rx := r\<rparr>"
  have s1: "store_ok ?s1" "list_all valid_step (listing ?s1)" "state ?s1 = STATE_IDLE"
    using assms(1,2) by (simp_all add: store_inv_def store_ok_def listing_def)
  from idle_command_cases[OF assms(3) Cons] consider
      "s' = printMainMenu ?s1" | "case_M L ?s1 = Some s'" | "case_P L ?s1 = Some s'"
    | "s' = case_R ?s1" | "s' = case_S ?s1" | "s' = case_C ?s1" | "s' = case_help ?s1"
    | cmd where "s' = case_default cmd ?s1"
    by blast
  then show ?thesis
  proof cases
    case 1
    with s1 show ?thesis by (simp add: store_inv_def store_ok_def listing_def)
  next
    case 2
    then have "program s' = program ?s1 \<and> programCount s' = programCount ?s1 \<and>
        state s' = STATE_MOVING_MANUAL"
      by (auto simp: case_M_def Let_def split: option.splits)
    with s1 show ?thesis by (simp add: store_inv_def store_ok_def listing_def)
  next
    case 3
    from case_P_store[OF s1(1,2) this] s1(3) show ?thesis by (simp add: store_inv_def)
  next
    case 4
    have "program (case_R ?s1) = program ?s1 \<and> programCount (case_R ?s1) = programCount ?s1 \<and>
        (state (case_R ?s1) = STATE_MOVING_PROG \<longrightarrow>
           progStepIndex (case_R ?s1) < programCount ?s1)"
      using s1(3) by (simp add: case_R_def Let_def)
    with 4 s1 show ?thesis by (simp add: store_inv_def store_ok_def listing_def)
  next
    case 5
    with s1 show ?thesis by (simp add: case_S_def store_inv_def store_ok_def listing_def)
  next
    case 6
    with s1 show ?thesis by (simp add: case_C_def store_inv_def store_ok_def listing_def)
  next
    case 7
    with s1 show ?thesis by (simp add: case_help_def store_inv_def store_ok_def listing_def)
  next
    case 8
    with s1 show ?thesis
      by (simp add: case_default_def store_inv_def store_ok_def listing_def)
  qed
qed

lemma finish_move_manual_state:
  "state s = STATE_MOVING_MANUAL \<Longrightarrow> state (finish_move s) = STATE_IDLE"
  by (simp add: finish_move_def Let_def)

lemma abort_check_state:
  "state (abort_check s) = state s \<or> state (abort_check s) = STATE_IDLE"
  by (simp add: abort_check_def Let_def split: list.splits)

lemma loop_moving_store:
  assumes "state s = STATE_MOVING_MANUAL \<or> state s = STATE_MOVING_PROG"
    and "loop L e s = Some s'"
  shows "program s' = program s \<and> programCount s' = programCount s"
proof (cases "move_done (after_service e s)")
  case True
  with assms have "s' = finish_move (after_service e s)" by (simp add: loop_moving_step)
  then show ?thesis by simp
next
  case False
  with assms have "s' = abort_check (after_service e s)" by (simp add: loop_moving_step)
  then show ?thesis by simp
qed

lemma loop_store:
  assumes "store_inv s" and "loop L e s = Some s'"
  shows "store_inv s'"
proof (cases "state s")
  case STATE_IDLE
  then have "idle_command L (after_service e s) = Some s'"
    using assms(2) by (simp add: loop_def Let_def)
  moreover have "store_inv (after_service e s)"
    using assms(1) by (simp add: store_inv_def store_ok_def listing_def)
  moreover have "state (after_service e s) = STATE_IDLE" using STATE_IDLE by simp
  ultimately show ?thesis
    using idle_command_store[of "after_service e s" L s'] by simp
next
  case STATE_MOVING_MANUAL
  then have m: "state s = STATE_MOVING_MANUAL \<or> state s = STATE_MOVING_PROG" by simp
  have "state s' \<noteq> STATE_MOVING_PROG"
  proof (cases "move_done (after_service e s)")
    case True
    with m assms(2) have "s' = finish_move (after_service e s)"
      by (simp add: loop_moving_step)
    with STATE_MOVING_MANUAL show ?thesis by (simp add: finish_move_manual_state)
  next
    case False
    with m assms(2) have "s' = abort_check (after_service e s)"
      by (simp add: loop_moving_step)
    with STATE_MOVING_MANUAL abort_check_state[of "after_service e s"] show ?thesis
      by auto
  qed
  with loop_moving_store[OF m assms(2)] assms(1) show ?thesis
    by (simp add: store_inv_def store_ok_def listing_def)
next
  case STATE_MOVING_PROG
  with assms(1) have a: "store_ok s" "state s = STATE_MOVING_PROG"
    "progStepIndex s < programCount s"
    by (simp_all add: store_inv_def)
  have l: "list_all valid_step (listing s)" using assms(1) by (simp add: store_inv_def)
  have p: "program s' = program s \<and> programCount s' = programCount s"
    using assms(2) a(2) by (intro loop_moving_store[of s L e]) simp_all
  have "state s' = STATE_MOVING_PROG \<longrightarrow> progStepIndex s' < programCount s'"
    using a
  proof (cases rule: prog_tick[where L = L and e = e])
    case (wait t)
    from wait(1) assms(2) have "t = s'" by simp
    with wait(4,6) a(3) show ?thesis by simp
  next
    case (abort t)
    from abort(1) assms(2) have "t = s'" by simp
    with abort(3) show ?thesis by simp
  next
    case (advance t)
    from advance(1) assms(2) have "t = s'" by simp
    with advance(3,5,7) show ?thesis by simp
  next
    case (complete t)
    from complete(1) assms(2) have "t = s'" by simp
    with complete(4) show ?thesis by simp
  qed
  with p a(1) l show ?thesis by (simp add: store_inv_def store_ok_def listing_def)
qed

text \<open>
  In every reachable state the store has five slots with at most five in use, every
  stored step is in the ranges that \<^verbatim>\<open>promptStep\<close> enforces, and a running program is
  at one of its steps.
\<close>

lemma reachable_store_inv: "reachable L s \<Longrightarrow> store_inv s"
proof (induction rule: reachable.induct)
  case reachable_setup
  show ?case by (rule store_inv_setup)
next
  case (reachable_loop s e s')
  then show ?case using loop_store[of s L e s'] by simp
qed

lemma reachable_steps_valid:
  assumes "reachable L s" and "i < programCount s"
  shows "valid_step (program s ! i)"
proof -
  from reachable_store_inv[OF assms(1)] have "list_all valid_step (listing s)"
    and "programCount s \<le> length (program s)"
    by (simp_all add: store_inv_def store_ok_def)
  with assms(2) show ?thesis by (simp add: listing_def list_all_length)
qed


end
